theory Spec2Isabelle
  imports Main "HOL-Library.AList"
begin

section \<open>Characters and text\<close>

text \<open>
  A Python \<open>str\<close> is a sequence of code points and \<open>len\<close> counts them. What the program does
  with a character is decided by the interpreter's character database: the classes \<open>\s\<close>,
  \<open>\d\<close> and \<open>\w\<close> of \<open>re\<close>, the matching of a literal under \<open>re.IGNORECASE\<close>, \<open>str.lower\<close>, the
  value \<open>int\<close> gives a digit, and the Latin-1 encoding. The database is not part of the
  program. A text is a list over a type \<open>'c\<close> of characters, and the database is a parameter
  of the model, a record of tables over \<open>'c\<close>:
  \<^item> \<open>u_chr\<close> gives the character of each of the code points U+0000 to U+00FF, in which the
    literals of the program are written;
  \<^item> \<open>u_space\<close> is \<open>\s\<close> (and \<open>str.isspace\<close>, which \<open>str.strip\<close> uses), \<open>u_decimal\<close> is \<open>\d\<close>,
    \<open>u_word\<close> is \<open>\w\<close>;
  \<^item> \<open>u_digit\<close> is the value of a decimal digit;
  \<^item> \<open>u_ci x c\<close> says whether the literal \<open>x\<close> of a pattern compiled with \<open>re.IGNORECASE\<close>
    matches the character \<open>c\<close> of the text;
  \<^item> \<open>u_lower\<close> is \<open>str.lower\<close>, a function of the whole string;
  \<^item> \<open>u_latin1\<close> is the byte of a character in the Latin-1 encoding, if it has one.
\<close>

record 'c chartab =
  u_chr :: "char \<Rightarrow> 'c"
  u_space :: "'c \<Rightarrow> bool"
  u_decimal :: "'c \<Rightarrow> bool"
  u_word :: "'c \<Rightarrow> bool"
  u_digit :: "'c \<Rightarrow> nat"
  u_ci :: "'c \<Rightarrow> 'c \<Rightarrow> bool"
  u_lower :: "'c list \<Rightarrow> 'c list"
  u_latin1 :: "'c \<Rightarrow> char option"

definition lit :: "'c chartab \<Rightarrow> string \<Rightarrow> 'c list" where
  \<comment> \<open>a string literal of the program\<close>
  "lit U s = map (u_chr U) s"

definition nl :: "'c chartab \<Rightarrow> 'c" where
  \<comment> \<open>the newline character\<close>
  "nl U = u_chr U (CHR 0x0A)"

definition strip :: "'c chartab \<Rightarrow> 'c list \<Rightarrow> 'c list" where
  "strip U s = rev (dropWhile (u_space U) (rev (dropWhile (u_space U) s)))"

text \<open>
  The tables on the code points U+0000 to U+00FF, as the interpreter has them there: a
  \<open>char\<close> stands for the code point of the same number. Most examples are evaluated with
  these tables.
\<close>

definition ord :: "char \<Rightarrow> nat" where
  "ord c = of_char c"

definition newline :: char where
  "newline = CHR 0x0A"

definition is_space :: "char \<Rightarrow> bool" where
  \<comment> \<open>\<open>\s\<close> and \<open>str.isspace\<close>: TAB, LF, VT, FF, CR, FS, GS, RS, US, space, NEL, NBSP\<close>
  "is_space c = (let n = ord c in (9 \<le> n \<and> n \<le> 13) \<or> (28 \<le> n \<and> n \<le> 32) \<or> n = 133 \<or> n = 160)"

definition is_digit :: "char \<Rightarrow> bool" where
  \<comment> \<open>\<open>\d\<close>: the decimal digits\<close>
  "is_digit c = (let n = ord c in 48 \<le> n \<and> n \<le> 57)"

definition is_word :: "char \<Rightarrow> bool" where
  \<comment> \<open>\<open>\w\<close>: \<open>str.isalnum\<close> or the underscore\<close>
  "is_word c = (let n = ord c in
     (48 \<le> n \<and> n \<le> 57) \<or> (65 \<le> n \<and> n \<le> 90) \<or> n = 95 \<or> (97 \<le> n \<and> n \<le> 122) \<or>
     n = 170 \<or> n = 178 \<or> n = 179 \<or> n = 181 \<or> n = 185 \<or> n = 186 \<or>
     (188 \<le> n \<and> n \<le> 190) \<or> (192 \<le> n \<and> n \<le> 214) \<or> (216 \<le> n \<and> n \<le> 246) \<or> 248 \<le> n)"

definition lower_char :: "char \<Rightarrow> char" where
  \<comment> \<open>the simple lower-case mapping: A-Z and the capital letters U+00C0 to U+00DE except U+00D7\<close>
  "lower_char c = (let n = ord c in
     if (65 \<le> n \<and> n \<le> 90) \<or> (192 \<le> n \<and> n \<le> 214) \<or> (216 \<le> n \<and> n \<le> 222)
     then char_of (n + 32) else c)"

definition lower :: "string \<Rightarrow> string" where
  "lower s = map lower_char s"

definition latin1 :: "char chartab" where
  "latin1 =
     \<lparr>u_chr = (\<lambda>c. c), u_space = is_space, u_decimal = is_digit, u_word = is_word,
      u_digit = (\<lambda>c. ord c - 48), u_ci = (\<lambda>x c. lower_char c = lower_char x),
      u_lower = lower, u_latin1 = Some\<rparr>"

text \<open>
  The tables on a larger set of code points: U+0000 to U+00FF and five more, the capital I
  with a dot above (U+0130), the dotless i (U+0131), the long s (U+017F), the combining dot
  above (U+0307) and the Kelvin sign (U+212A). None of the five is a space or a decimal
  digit, all but the combining dot are word characters, and none has a byte in Latin-1.
  \<open>str.lower\<close> turns U+0130 into an i followed by U+0307 and U+212A into k, and leaves the
  other three as they are. Under \<open>re.IGNORECASE\<close> the literal of a pattern and the character
  of the text are both taken to their simple lower-case mapping, which sends U+0130 to i
  and U+212A to k; the literal matches when the two are equal or are a pair of the
  interpreter's table of further equivalences, which pairs i with U+0131 and s with U+017F.
\<close>

datatype code_point = Latin char | U0130 | U0131 | U017F | U0307 | U212A

fun simple_lower :: "code_point \<Rightarrow> code_point" where
  "simple_lower (Latin c) = Latin (lower_char c)"
| "simple_lower U0130 = Latin CHR ''i''"
| "simple_lower U212A = Latin CHR ''k''"
| "simple_lower c = c"

definition ignorecase_fixes :: "(code_point \<times> code_point) list" where
  "ignorecase_fixes =
     [(Latin CHR ''i'', U0131), (U0131, Latin CHR ''i''), (Latin CHR ''s'', U017F), (U017F, Latin CHR ''s'')]"

definition matches_ignorecase :: "code_point \<Rightarrow> code_point \<Rightarrow> bool" where
  "matches_ignorecase x c =
     (simple_lower c = simple_lower x \<or> (simple_lower x, simple_lower c) \<in> set ignorecase_fixes)"

fun full_lower :: "code_point \<Rightarrow> code_point list" where
  "full_lower (Latin c) = [Latin (lower_char c)]"
| "full_lower U0130 = [Latin CHR ''i'', U0307]"
| "full_lower U212A = [Latin CHR ''k'']"
| "full_lower c = [c]"

definition extended :: "code_point chartab" where
  "extended =
     \<lparr>u_chr = Latin,
      u_space = (\<lambda>c. case c of Latin a \<Rightarrow> is_space a | _ \<Rightarrow> False),
      u_decimal = (\<lambda>c. case c of Latin a \<Rightarrow> is_digit a | _ \<Rightarrow> False),
      u_word = (\<lambda>c. case c of Latin a \<Rightarrow> is_word a | U0307 \<Rightarrow> False | _ \<Rightarrow> True),
      u_digit = (\<lambda>c. case c of Latin a \<Rightarrow> ord a - 48 | _ \<Rightarrow> 0),
      u_ci = matches_ignorecase,
      u_lower = (\<lambda>s. concat (map full_lower s)),
      u_latin1 = (\<lambda>c. case c of Latin a \<Rightarrow> Some a | _ \<Rightarrow> None)\<rparr>"

section \<open>Errors, integers and dictionaries\<close>

text \<open>
  \<open>KeyError\<close> is what indexing a dictionary with an absent key raises, \<open>ValueError\<close> what \<open>int\<close>
  raises, \<open>UnicodeEncodeError\<close> what \<open>str.encode\<close> raises; \<open>Raised\<close> stands for an exception
  raised by a collaborator that is not part of the program (the text generator, the
  document parsers and writers), with its message.
\<close>

datatype error = KeyError | ValueError | UnicodeEncodeError | Raised string

text \<open>
  \<open>int(s)\<close> is only applied to the digits captured by \<open>(\d+)\<close>. The interpreter converts a
  numeral of at most 4300 digits (\<open>sys.int_info.default_max_str_digits\<close>, leading zeros
  counted) and raises \<open>ValueError\<close> on a longer one.
\<close>

definition MAX_STR_DIGITS :: nat where
  "MAX_STR_DIGITS = 4300"

definition digits_value :: "'c chartab \<Rightarrow> 'c list \<Rightarrow> int" where
  "digits_value U s = foldl (\<lambda>n c. 10 * n + int (u_digit U c)) 0 s"

definition py_int :: "'c chartab \<Rightarrow> 'c list \<Rightarrow> error + int" where
  "py_int U s = (if length s > MAX_STR_DIGITS then Inl ValueError else Inr (digits_value U s))"

function str_nat :: "nat \<Rightarrow> string" where
  "str_nat n = (if n < 10 then [char_of (48 + n)] else str_nat (n div 10) @ [char_of (48 + n mod 10)])"
  by pat_completeness auto
termination
  by (relation "measure id") auto

declare str_nat.simps [simp del]

definition str_int :: "int \<Rightarrow> string" where
  \<comment> \<open>\<open>str(i)\<close>, as an f-string formats an int\<close>
  "str_int i = (if i < 0 then CHR ''-'' # str_nat (nat (- i)) else str_nat (nat i))"

definition getitem :: "('k \<times> 'v) list \<Rightarrow> 'k \<Rightarrow> error + 'v" where
  "getitem d k = (case map_of d k of None \<Rightarrow> Inl KeyError | Some v \<Rightarrow> Inr v)"

fun join :: "'a list \<Rightarrow> 'a list list \<Rightarrow> 'a list" where
  "join sep [] = []"
| "join sep [x] = x"
| "join sep (x # y # ys) = x @ sep @ join sep (y # ys)"

text \<open>A loop whose body can raise stops at the first exception.\<close>

fun fold_err :: "('a \<Rightarrow> 'b \<Rightarrow> error + 'b) \<Rightarrow> 'a list \<Rightarrow> 'b \<Rightarrow> error + 'b" where
  "fold_err f [] acc = Inr acc"
| "fold_err f (x # xs) acc = (case f x acc of Inl e \<Rightarrow> Inl e | Inr acc' \<Rightarrow> fold_err f xs acc')"

section \<open>Regular expressions\<close>

text \<open>
  The patterns of the program use literals, the classes \<open>\s\<close>, \<open>\d\<close>, \<open>\w\<close>, \<open>[\s:\-]\<close>,
  \<open>[^\n]\<close>, the dot, sequence, alternation, greedy \<open>+\<close> and lazy \<open>*?\<close> over a single
  character, capturing groups, \<open>$\<close> and \<open>\b\<close>. The matcher is a backtracking one: it returns
  the ways a pattern can match at the current position in the order in which \<open>re\<close> tries
  them, so that the head of the list is the match \<open>re\<close> reports.
\<close>

datatype cclass = Space | Digit | WordChar | Separator | NotNewline

datatype 'c atom = Lit 'c | In cclass | Dot

datatype 'c regex =
    Atom "'c atom"
  | Eps
  | Seq "'c regex" "'c regex"
  | Alt "'c regex" "'c regex"
  | Plus "'c atom"
  | LazyStar "'c atom"
  | Group nat "'c regex"
  | Eol
  | WordBoundary

record flags =
  ignorecase :: bool
  dotall :: bool

fun in_class :: "'c chartab \<Rightarrow> cclass \<Rightarrow> 'c \<Rightarrow> bool" where
  "in_class U Space c = u_space U c"
| "in_class U Digit c = u_decimal U c"
| "in_class U WordChar c = u_word U c"
| "in_class U Separator c = (u_space U c \<or> c = u_chr U CHR '':'' \<or> c = u_chr U CHR ''-'')"
| "in_class U NotNewline c = (c \<noteq> nl U)"

fun atom_ok :: "'c chartab \<Rightarrow> flags \<Rightarrow> 'c atom \<Rightarrow> 'c \<Rightarrow> bool" where
  "atom_ok U fl (Lit x) c = (if ignorecase fl then u_ci U x c else c = x)"
| "atom_ok U fl (In k) c = in_class U k c"
| "atom_ok U fl Dot c = (dotall fl \<or> c \<noteq> nl U)"

text \<open>
  A matcher state: the character before the current position (for \<open>\b\<close>), the text from
  the current position on, and the groups captured so far.
\<close>

type_synonym 'c mstate = "'c option \<times> 'c list \<times> (nat \<times> 'c list) list"

fun greedy_plus :: "('c \<Rightarrow> bool) \<Rightarrow> 'c mstate \<Rightarrow> 'c mstate list" where
  "greedy_plus P (p, [], g) = []"
| "greedy_plus P (p, c # cs, g) =
     (if P c then greedy_plus P (Some c, cs, g) @ [(Some c, cs, g)] else [])"

fun lazy_star :: "('c \<Rightarrow> bool) \<Rightarrow> 'c mstate \<Rightarrow> 'c mstate list" where
  "lazy_star P (p, [], g) = [(p, [], g)]"
| "lazy_star P (p, c # cs, g) =
     (p, c # cs, g) # (if P c then lazy_star P (Some c, cs, g) else [])"

definition word_before :: "'c chartab \<Rightarrow> 'c option \<Rightarrow> bool" where
  "word_before U p = (case p of None \<Rightarrow> False | Some c \<Rightarrow> u_word U c)"

definition word_after :: "'c chartab \<Rightarrow> 'c list \<Rightarrow> bool" where
  "word_after U s = (case s of [] \<Rightarrow> False | c # _ \<Rightarrow> u_word U c)"

fun ms :: "'c chartab \<Rightarrow> flags \<Rightarrow> 'c regex \<Rightarrow> 'c mstate \<Rightarrow> 'c mstate list" where
  "ms U fl (Atom a) (p, s, g) =
     (case s of [] \<Rightarrow> [] | c # cs \<Rightarrow> if atom_ok U fl a c then [(Some c, cs, g)] else [])"
| "ms U fl Eps st = [st]"
| "ms U fl (Seq a b) st = concat (map (ms U fl b) (ms U fl a st))"
| "ms U fl (Alt a b) st = ms U fl a st @ ms U fl b st"
| "ms U fl (Plus a) st = greedy_plus (atom_ok U fl a) st"
| "ms U fl (LazyStar a) st = lazy_star (atom_ok U fl a) st"
| "ms U fl (Group n r) (p, s, g) =
     map (\<lambda>(p', s', g'). (p', s', AList.update n (take (length s - length s') s) g'))
       (ms U fl r (p, s, g))"
| "ms U fl Eol (p, s, g) = (if s = [] \<or> s = [nl U] then [(p, s, g)] else [])"
| "ms U fl WordBoundary (p, s, g) = (if word_before U p \<noteq> word_after U s then [(p, s, g)] else [])"

definition match_at :: "'c chartab \<Rightarrow> flags \<Rightarrow> 'c regex \<Rightarrow> 'c option \<Rightarrow> 'c list \<Rightarrow> 'c mstate option" where
  "match_at U fl r p s = (case ms U fl r (p, s, []) of [] \<Rightarrow> None | st # _ \<Rightarrow> Some st)"

fun lits :: "'c list \<Rightarrow> 'c regex" where
  "lits [] = Eps"
| "lits (c # cs) = Seq (Atom (Lit c)) (lits cs)"

fun ngroups :: "'c regex \<Rightarrow> nat" where
  "ngroups (Seq a b) = ngroups a + ngroups b"
| "ngroups (Alt a b) = ngroups a + ngroups b"
| "ngroups (Group n r) = Suc (ngroups r)"
| "ngroups r = 0"

definition group :: "(nat \<times> 'c list) list \<Rightarrow> nat \<Rightarrow> 'c list" where
  "group g n = (case map_of g n of None \<Rightarrow> [] | Some s \<Rightarrow> s)"

text \<open>
  \<open>pattern.search\<close>: the first position, from the left, where the pattern matches; the
  result is the groups of that match.
\<close>

fun search_from ::
  "'c chartab \<Rightarrow> flags \<Rightarrow> 'c regex \<Rightarrow> 'c option \<Rightarrow> 'c list \<Rightarrow> (nat \<times> 'c list) list option" where
  "search_from U fl r p [] = map_option (\<lambda>(p', s', g). g) (match_at U fl r p [])"
| "search_from U fl r p (c # cs) =
     (case match_at U fl r p (c # cs) of
        Some (p', s', g) \<Rightarrow> Some g
      | None \<Rightarrow> search_from U fl r (Some c) cs)"

definition search :: "'c chartab \<Rightarrow> flags \<Rightarrow> 'c regex \<Rightarrow> 'c list \<Rightarrow> (nat \<times> 'c list) list option" where
  "search U fl r text = search_from U fl r None text"

text \<open>
  \<open>re.findall\<close>: the matches from left to right, each search starting where the previous
  match ended. An item is the matched text when the pattern has no group, the group when it
  has one, and the tuple of the groups when it has several. After an empty match the scan
  moves on by one character; no pattern of the program matches the empty string.
\<close>

datatype 'c fmatch = MStr "'c list" | MTuple "'c list list"

definition item :: "'c regex \<Rightarrow> 'c list \<Rightarrow> (nat \<times> 'c list) list \<Rightarrow> 'c fmatch" where
  "item r whole g =
     (if ngroups r = 0 then MStr whole
      else if ngroups r = 1 then MStr (group g 1)
      else MTuple (map (group g) [1 ..< Suc (ngroups r)]))"

function findall_from ::
  "'c chartab \<Rightarrow> flags \<Rightarrow> 'c regex \<Rightarrow> 'c option \<Rightarrow> 'c list \<Rightarrow> 'c fmatch list" where
  "findall_from U fl r p s =
     (case match_at U fl r p s of
        Some (p', s', g) \<Rightarrow>
          item r (take (length s - length s') s) g #
            (if length s' < length s then findall_from U fl r p' s'
             else (case s of [] \<Rightarrow> [] | c # cs \<Rightarrow> findall_from U fl r (Some c) cs))
      | None \<Rightarrow> (case s of [] \<Rightarrow> [] | c # cs \<Rightarrow> findall_from U fl r (Some c) cs))"
  by pat_completeness auto
termination
  by (relation "measure (\<lambda>(U, fl, r, p, s). length s)") auto

declare findall_from.simps [simp del]

definition findall :: "'c chartab \<Rightarrow> flags \<Rightarrow> 'c regex \<Rightarrow> 'c list \<Rightarrow> 'c fmatch list" where
  "findall U fl r text = findall_from U fl r None text"

section \<open>Chapter detection\<close>

definition IGNORECASE :: flags where
  "IGNORECASE = \<lparr>ignorecase = True, dotall = False\<rparr>"

definition titled :: "'c chartab \<Rightarrow> string \<Rightarrow> 'c regex" where
  \<comment> \<open>\<open>(?:KEYWORD\s+(\d+)[\s:\-]+)([^\n]+)\<close>\<close>
  "titled U kw =
     Seq (Seq (lits (lit U kw)) (Seq (Plus (In Space)) (Seq (Group 1 (Plus (In Digit))) (Plus (In Separator)))))
         (Group 2 (Plus (In NotNewline)))"

definition bare :: "'c chartab \<Rightarrow> string \<Rightarrow> 'c regex" where
  \<comment> \<open>\<open>(?:KEYWORD\s+(\d+))\<close>\<close>
  "bare U kw = Seq (lits (lit U kw)) (Seq (Plus (In Space)) (Group 1 (Plus (In Digit))))"

definition CHAPTER_PATTERNS :: "'c chartab \<Rightarrow> 'c regex list" where
  "CHAPTER_PATTERNS U = [titled U ''Chapter'', titled U ''CHAPTER'', bare U ''CHAPTER'', titled U ''Section'']"

type_synonym 'c chapter_map = "(int \<times> 'c list) list"

fun store_match :: "'c chartab \<Rightarrow> 'c fmatch \<Rightarrow> 'c chapter_map \<Rightarrow> error + 'c chapter_map" where
  "store_match U (MTuple [num, name]) chapters =
     (case py_int U num of
        Inl e \<Rightarrow> Inl e
      | Inr n \<Rightarrow> Inr (AList.update n (strip U name) chapters))"
| "store_match U (MTuple items) chapters = Inr chapters"
| "store_match U (MStr m) chapters =
     (case py_int U m of
        Inl e \<Rightarrow> Inl e
      | Inr n \<Rightarrow> Inr (AList.update n (lit U ''Chapter '' @ m) chapters))"

definition apply_pattern :: "'c chartab \<Rightarrow> 'c list \<Rightarrow> 'c regex \<Rightarrow> 'c chapter_map \<Rightarrow> error + 'c chapter_map" where
  \<comment> \<open>the body of the loop over the patterns\<close>
  "apply_pattern U text pattern chapters =
     fold_err (store_match U) (findall U IGNORECASE pattern text) chapters"

definition extract_chapters :: "'c chartab \<Rightarrow> 'c list \<Rightarrow> error + 'c chapter_map" where
  "extract_chapters U text = fold_err (apply_pattern U text) (CHAPTER_PATTERNS U) []"

section \<open>Keyword extraction\<close>

definition NOFLAGS :: flags where
  "NOFLAGS = \<lparr>ignorecase = False, dotall = False\<rparr>"

definition word_pattern :: "'c regex" where
  \<comment> \<open>\<open>\b\w+\b\<close>\<close>
  "word_pattern = Seq WordBoundary (Seq (Plus (In WordChar)) WordBoundary)"

fun text_of :: "'c fmatch \<Rightarrow> 'c list" where
  "text_of (MStr w) = w"
| "text_of (MTuple ws) = concat ws"

text \<open>
  \<open>Counter(words)\<close> is a dictionary that keeps its keys in the order of their first
  insertion; \<open>most_common(n)\<close> is \<open>heapq.nlargest(n, items, key=count)\<close>, that is the first
  \<open>n\<close> items of \<open>sorted(items, key=count, reverse=True)\<close>, a stable sort: items with the same
  count keep their order. \<open>sort_key\<close> is stable too.
\<close>

fun tally :: "'a \<Rightarrow> ('a \<times> nat) list \<Rightarrow> ('a \<times> nat) list" where
  "tally w [] = [(w, 1)]"
| "tally w ((k, n) # kns) = (if k = w then (k, Suc n) # kns else (k, n) # tally w kns)"

definition Counter :: "'a list \<Rightarrow> ('a \<times> nat) list" where
  "Counter ws = fold tally ws []"

definition most_common :: "int \<Rightarrow> ('a \<times> nat) list \<Rightarrow> ('a \<times> nat) list" where
  "most_common n items = take (nat n) (sort_key (\<lambda>(w, c). - int c) items)"

definition extract_keywords :: "'c chartab \<Rightarrow> 'c list list \<Rightarrow> 'c list \<Rightarrow> int \<Rightarrow> 'c list list" where
  \<comment> \<open>the second argument is the list \<open>stopwords.words('english')\<close> of the NLTK corpus\<close>
  "extract_keywords U stop_words text num_keywords =
     (let words = map text_of (findall U NOFLAGS word_pattern (u_lower U text));
          filtered = filter (\<lambda>w. w \<notin> set stop_words \<and> length w > 2) words
      in map fst (most_common num_keywords (Counter filtered)))"

section \<open>Document export\<close>

text \<open>
  The PDF and Word writers are libraries outside the program. A document under construction
  is modelled by the calls the program makes on it, in order; what the library returns for
  these calls (or the exception it raises) is a parameter: the string that \<open>pdf.output\<close>
  returns, which the program encodes as Latin-1, and the bytes that \<open>doc.save\<close> writes. A byte
  is a \<open>char\<close>. A \<open>BytesIO\<close> buffer is its content and its read position.
\<close>

datatype 'c pdf_call = AddPage | SetAutoPageBreak bool nat | SetFont string nat | MultiCell nat nat "'c list"

datatype 'c doc_call = AddParagraph "'c list"

record bytesio =
  content :: string
  pos :: nat

definition BytesIO :: "string \<Rightarrow> bytesio" where
  "BytesIO initial = \<lparr>content = initial, pos = 0\<rparr>"

definition bytes_write :: "string \<Rightarrow> bytesio \<Rightarrow> bytesio" where
  "bytes_write bs b = \<lparr>content = take (pos b) (content b) @ bs @ drop (pos b + length bs) (content b),
                 pos = pos b + length bs\<rparr>"

definition seek :: "nat \<Rightarrow> bytesio \<Rightarrow> bytesio" where
  "seek n b = b\<lparr>pos := n\<rparr>"

fun encode_latin1 :: "'c chartab \<Rightarrow> 'c list \<Rightarrow> error + string" where
  "encode_latin1 U [] = Inr []"
| "encode_latin1 U (c # cs) =
     (case u_latin1 U c of
        None \<Rightarrow> Inl UnicodeEncodeError
      | Some b \<Rightarrow> (case encode_latin1 U cs of Inl e \<Rightarrow> Inl e | Inr bs \<Rightarrow> Inr (b # bs)))"

fun split_on :: "'a \<Rightarrow> 'a list \<Rightarrow> 'a list list" where
  "split_on sep [] = [[]]"
| "split_on sep (c # cs) =
     (if c = sep then [] # split_on sep cs
      else (case split_on sep cs of [] \<Rightarrow> [[c]] | w # ws \<Rightarrow> (c # w) # ws))"

definition pdf_document :: "'c chartab \<Rightarrow> 'c list \<Rightarrow> 'c pdf_call list" where
  "pdf_document U text =
     fold (\<lambda>line pdf. pdf @ [MultiCell 0 10 line]) (split_on (nl U) text)
       [AddPage, SetAutoPageBreak True 15, SetFont ''Arial'' 12]"

definition export_to_pdf ::
  "'c chartab \<Rightarrow> ('c pdf_call list \<Rightarrow> error + 'c list) \<Rightarrow> 'c list \<Rightarrow> error + bytesio" where
  "export_to_pdf U output text =
     (case output (pdf_document U text) of
        Inl e \<Rightarrow> Inl e
      | Inr returned \<Rightarrow>
          (case encode_latin1 U returned of
             Inl e \<Rightarrow> Inl e
           | Inr pdf_output \<Rightarrow> Inr (seek 0 (BytesIO pdf_output))))"

definition word_document :: "'c list \<Rightarrow> 'c doc_call list" where
  "word_document text = [AddParagraph text]"

definition export_to_word :: "('c doc_call list \<Rightarrow> error + string) \<Rightarrow> 'c list \<Rightarrow> error + bytesio" where
  "export_to_word save text =
     (case save (word_document text) of
        Inl e \<Rightarrow> Inl e
      | Inr bytes \<Rightarrow> Inr (seek 0 (bytes_write bytes (BytesIO []))))"

section \<open>Chapter-scoped text and prompts\<close>

definition DOTALL_IGNORECASE :: flags where
  "DOTALL_IGNORECASE = \<lparr>ignorecase = True, dotall = True\<rparr>"

definition chapter_heading :: "'c chartab \<Rightarrow> int \<Rightarrow> 'c list \<Rightarrow> 'c list" where
  \<comment> \<open>\<open>f"Chapter {number}: {title}"\<close>\<close>
  "chapter_heading U n title = lit U ''Chapter '' @ lit U (str_int n) @ lit U '': '' @ title"

definition backslash :: char where
  "backslash = CHR 0x5C"

definition next_heading_chat :: "'c chartab \<Rightarrow> 'c regex" where
  \<comment> \<open>\<open>Chapter\s+\d+:\<close>, as written in \<open>chatbot_response\<close>\<close>
  "next_heading_chat U =
     Seq (lits (lit U ''Chapter''))
       (Seq (Plus (In Space)) (Seq (Plus (In Digit)) (Atom (Lit (u_chr U CHR '':'')))))"

definition next_heading_main :: "'c chartab \<Rightarrow> 'c regex" where
  \<comment> \<open>\<open>Chapter\\s+\\d+:\<close>, as written in the raw string of \<open>main\<close>: a backslash, one or more
      \<open>s\<close>, a backslash, one or more \<open>d\<close>, a colon\<close>
  "next_heading_main U =
     Seq (lits (lit U ''Chapter''))
       (Seq (Atom (Lit (u_chr U backslash))) (Seq (Plus (Lit (u_chr U CHR ''s'')))
         (Seq (Atom (Lit (u_chr U backslash))) (Seq (Plus (Lit (u_chr U CHR ''d'')))
           (Atom (Lit (u_chr U CHR '':'')))))))"

definition scope_pattern :: "'c regex \<Rightarrow> 'c list \<Rightarrow> 'c regex" where
  \<comment> \<open>\<open>{re.escape(chapter_title)}(.*?)(NEXT|$)\<close>\<close>
  "scope_pattern next_heading chapter_title =
     Seq (lits chapter_title) (Seq (Group 1 (LazyStar Dot)) (Group 2 (Alt next_heading Eol)))"

definition chat_context ::
  "'c chartab \<Rightarrow> 'c list \<Rightarrow> 'c chapter_map \<Rightarrow> 'c list \<Rightarrow> int option \<Rightarrow> error + 'c list" where
  \<comment> \<open>lines 78 to 91 of \<open>chatbot_response\<close>: the context before it is cut to 3000 characters\<close>
  "chat_context U extracted_text chapters content_type selected_chapter =
     (case selected_chapter of
        None \<Rightarrow> Inr extracted_text
      | Some n \<Rightarrow>
          if content_type = lit U ''Book'' \<and> n \<noteq> 0 \<and> n \<in> set (map fst chapters) then
            (case getitem chapters n of
               Inl e \<Rightarrow> Inl e
             | Inr title \<Rightarrow>
                 (case search U DOTALL_IGNORECASE
                         (scope_pattern (next_heading_chat U) (chapter_heading U n title)) extracted_text of
                    Some g \<Rightarrow> Inr (strip U (group g 1))
                  | None \<Rightarrow> Inr extracted_text))
          else Inr extracted_text)"

definition chat_prompt :: "'c chartab \<Rightarrow> 'c list \<Rightarrow> 'c list \<Rightarrow> 'c list" where
  "chat_prompt U context user_input =
     lit U ''You are an educational assistant. The user uploaded the following content:''
     @ [nl U, nl U] @ context @ [nl U, nl U] @ lit U ''User question: '' @ user_input
     @ [nl U, nl U]
     @ lit U ''Please provide a clear, concise and helpful answer based on the above content.''"

definition chatbot_response ::
  "'c chartab \<Rightarrow> ('c list \<Rightarrow> error + 'c list) \<Rightarrow> 'c list \<Rightarrow> 'c list \<Rightarrow> 'c chapter_map \<Rightarrow> 'c list
     \<Rightarrow> int option \<Rightarrow> error + 'c list" where
  \<comment> \<open>the second argument is \<open>TextGenerator().generate_text\<close>\<close>
  "chatbot_response U generate_text user_input extracted_text chapters content_type selected_chapter =
     (case chat_context U extracted_text chapters content_type selected_chapter of
        Inl e \<Rightarrow> Inl e
      | Inr context \<Rightarrow> generate_text (chat_prompt U (take 3000 context) user_input))"

text \<open>
  The Generate column of \<open>main\<close>. The choice of the chapter select box is \<open>None\<close> for the
  option \<open>All\<close> and \<open>Some n\<close> for the option labelled \<open>f"Chapter {n}: {name}"\<close>, whose second
  word, without its colon, reads back as \<open>n\<close> at line 200.
\<close>

definition generate_chapter_text ::
  "'c chartab \<Rightarrow> 'c list \<Rightarrow> 'c chapter_map \<Rightarrow> 'c list \<Rightarrow> int option \<Rightarrow> error + 'c list" where
  \<comment> \<open>lines 194 to 208 of \<open>main\<close>\<close>
  "generate_chapter_text U extracted_text chapters content_type chapter_choice =
     (if content_type = lit U ''Book'' \<and> chapters \<noteq> [] then
        (case chapter_choice of
           None \<Rightarrow> Inr extracted_text
         | Some selected_chapter \<Rightarrow>
             (case getitem chapters selected_chapter of
                Inl e \<Rightarrow> Inl e
              | Inr title \<Rightarrow>
                  (case search U DOTALL_IGNORECASE
                          (scope_pattern (next_heading_main U) (chapter_heading U selected_chapter title))
                          extracted_text of
                     Some g \<Rightarrow> Inr (strip U (group g 1))
                   | None \<Rightarrow> Inr extracted_text)))
      else Inr extracted_text)"

datatype task = LessonPlan | MCQs | ShortQuestions | Summarize | ExtractKeywords

definition prompt_map :: "(task \<times> string) list" where
  "prompt_map =
     [(LessonPlan, ''Create a lesson plan for the following content:''),
      (MCQs, ''Generate multiple choice questions for the following content:''),
      (ShortQuestions, ''Generate short answer questions for the following content:'')]"

definition generate_content ::
  "'c chartab \<Rightarrow> 'c list list \<Rightarrow> ('c list \<Rightarrow> error + 'c list) \<Rightarrow> task \<Rightarrow> 'c list \<Rightarrow> error + 'c list" where
  \<comment> \<open>lines 214 to 231 of \<open>main\<close>: the result of a click on Generate\<close>
  "generate_content U stop_words generate_text task chapter_text =
     (if task = ExtractKeywords then
        Inr (lit U ''Keywords: '' @ join (lit U '', '') (extract_keywords U stop_words chapter_text 10))
      else if task = Summarize then
        generate_text (lit U ''Summarize the following content:'' @ [nl U, nl U] @ take 3000 chapter_text)
      else
        (case getitem prompt_map task of
           Inl e \<Rightarrow> Inl e
         | Inr prefix \<Rightarrow> generate_text (lit U prefix @ [nl U, nl U] @ take 3000 chapter_text)))"

section \<open>The session and one run of \<open>main\<close>\<close>

text \<open>
  \<open>st.session_state\<close> holds four keys; a key that is not in the session is \<open>None\<close> here, and
  the value of \<open>extracted_text\<close> is itself \<open>None\<close> or a text. Streamlit runs \<open>main\<close> from top
  to bottom at every interaction: one run takes the widgets' values and what the
  collaborators return, and leaves the session for the next run.
\<close>

text \<open>A chat entry is the dictionary with the keys \<open>user\<close>, \<open>bot\<close> and \<open>chapter\<close>.\<close>

record 'c chat_entry =
  user :: "'c list"
  bot :: "'c list"
  chapter_key :: "int option"

record 'c session_state =
  extracted_text :: "'c list option option"
  chapters :: "'c chapter_map option"
  chat_history :: "'c chat_entry list option"
  all_generated :: "'c list list option"

text \<open>
  An uploaded file: its name, what \<open>PyPDF2.PdfReader\<close> makes of it (an exception, or for
  each page the result of \<open>page.extract_text()\<close>) and what \<open>DOCXParser().extract_text\<close> returns
  for it.
\<close>

record 'c uploaded =
  name :: "'c list"
  pdf_pages :: "error + 'c list option list"
  docx_text :: "error + 'c list"

record 'c widgets =
  reset_session :: bool
  content_type :: "'c list"
  uploaded_file :: "'c uploaded option"
  task_choice :: task
  export_format :: "'c list"
  chapter_choice :: "int option"
  generate :: bool
  export_all :: bool
  chat_chapter :: "int option"
  chat_input :: "'c list"

record 'c collaborators =
  generate_text :: "'c list \<Rightarrow> error + 'c list"
  stop_words :: "'c list list"
  pdf_output :: "'c pdf_call list \<Rightarrow> error + 'c list"
  docx_save :: "'c doc_call list \<Rightarrow> error + string"

definition MAX_CHARS :: nat where
  "MAX_CHARS = 12000"

definition endswith :: "'a list \<Rightarrow> 'a list \<Rightarrow> bool" where
  "endswith s suffix = (length suffix \<le> length s \<and> drop (length s - length suffix) s = suffix)"

definition PDFParser_extract_text :: "error + 'c list option list \<Rightarrow> error + 'c list" where
  \<comment> \<open>\<open>text += page.extract_text() or ""\<close> over the pages\<close>
  "PDFParser_extract_text reader =
     (case reader of
        Inl e \<Rightarrow> Inl e
      | Inr pages \<Rightarrow> Inr (fold (\<lambda>page text. text @ (case page of None \<Rightarrow> [] | Some t \<Rightarrow> t)) pages []))"

definition initial_session :: "'c session_state" where
  "initial_session = \<lparr>extracted_text = None, chapters = None, chat_history = None, all_generated = None\<rparr>"

definition reset :: "'c session_state \<Rightarrow> 'c session_state" where
  \<comment> \<open>lines 137 to 139: each of the four keys is deleted\<close>
  "reset s = s\<lparr>extracted_text := None, chapters := None, chat_history := None, all_generated := None\<rparr>"

definition defaults :: "'c session_state \<Rightarrow> 'c session_state" where
  \<comment> \<open>lines 142 to 149\<close>
  "defaults s =
     s\<lparr>extracted_text := (case extracted_text s of None \<Rightarrow> Some None | Some t \<Rightarrow> Some t),
       chapters := (case chapters s of None \<Rightarrow> Some [] | Some c \<Rightarrow> Some c),
       chat_history := (case chat_history s of None \<Rightarrow> Some [] | Some h \<Rightarrow> Some h),
       all_generated := (case all_generated s of None \<Rightarrow> Some [] | Some g \<Rightarrow> Some g)\<rparr>"

text \<open>
  The parts of a run return \<open>Inl\<close> of the session when the run ends there (a \<open>return\<close>, or an
  exception that nothing catches) and \<open>Inr\<close> of the session when the run goes on.
\<close>

definition parse :: "'c chartab \<Rightarrow> 'c uploaded \<Rightarrow> (error + 'c list) option" where
  \<comment> \<open>lines 160 to 167: the parser chosen by the file name and what it returns; \<open>None\<close> for
      a name that ends in neither suffix\<close>
  "parse U file =
     (if endswith (u_lower U (name file)) (lit U ''.pdf'') then Some (PDFParser_extract_text (pdf_pages file))
      else if endswith (u_lower U (name file)) (lit U ''.docx'') then Some (docx_text file)
      else None)"

definition upload :: "'c chartab \<Rightarrow> 'c widgets \<Rightarrow> 'c session_state \<Rightarrow> 'c session_state + 'c session_state" where
  \<comment> \<open>lines 157 to 186; the chapter detection is outside the \<open>try\<close>, so its \<open>ValueError\<close> ends
      the run, after the text is stored\<close>
  "upload U ui s =
     (case uploaded_file ui of
        None \<Rightarrow> Inr s
      | Some file \<Rightarrow>
          (case parse U file of
             None \<Rightarrow> Inl s
           | Some (Inl e) \<Rightarrow> Inl s
           | Some (Inr parser_output) \<Rightarrow>
               (let text = (if length parser_output > MAX_CHARS then take MAX_CHARS parser_output
                            else parser_output);
                    s' = s\<lparr>extracted_text := Some (Some text)\<rparr>
                in if content_type ui = lit U ''Book'' then
                     (case extract_chapters U text of
                        Inl e \<Rightarrow> Inl s'
                      | Inr found \<Rightarrow> if found \<noteq> [] then Inr (s'\<lparr>chapters := Some found\<rparr>) else Inr s')
                   else Inr s')))"

definition export_buffer :: "'c chartab \<Rightarrow> 'c collaborators \<Rightarrow> 'c list \<Rightarrow> 'c list list \<Rightarrow> error + bytesio" where
  \<comment> \<open>lines 239 to 245\<close>
  "export_buffer U c format generated =
     (let all_text = join [nl U, nl U] generated
      in if format = lit U ''PDF'' then export_to_pdf U (pdf_output c) all_text
         else export_to_word (docx_save c) all_text)"

definition generate_column ::
  "'c chartab \<Rightarrow> 'c collaborators \<Rightarrow> 'c widgets \<Rightarrow> 'c session_state \<Rightarrow> 'c session_state + 'c session_state" where
  \<comment> \<open>lines 190 to 245\<close>
  "generate_column U c ui s =
     (case (extracted_text s, chapters s) of
        (Some (Some text), Some chs) \<Rightarrow>
          (case generate_chapter_text U text chs (content_type ui) (chapter_choice ui) of
             Inl e \<Rightarrow> Inl s
           | Inr chapter_text \<Rightarrow>
               if generate ui then
                 (let s' = (case generate_content U (stop_words c) (generate_text c) (task_choice ui) chapter_text of
                              Inl e \<Rightarrow> s
                            | Inr result \<Rightarrow>
                                s\<lparr>all_generated := map_option (\<lambda>g. g @ [result]) (all_generated s)\<rparr>)
                  in if export_all ui then
                       (case all_generated s' of
                          None \<Rightarrow> Inl s'
                        | Some generated \<Rightarrow>
                            (case export_buffer U c (export_format ui) generated of
                               Inl e \<Rightarrow> Inl s'
                             | Inr buf \<Rightarrow> Inr s'))
                     else Inr s')
               else Inr s)
      | _ \<Rightarrow> Inl s)"

definition chat_column :: "'c chartab \<Rightarrow> 'c collaborators \<Rightarrow> 'c widgets \<Rightarrow> 'c session_state \<Rightarrow> 'c session_state" where
  \<comment> \<open>lines 247 to 265; the display and the export of the history below do not write the session\<close>
  "chat_column U c ui s =
     (case (extracted_text s, chapters s) of
        (Some (Some text), Some chs) \<Rightarrow>
          (let selected_chapter = (if content_type ui = lit U ''Book'' \<and> chs \<noteq> [] then chat_chapter ui else None)
           in if chat_input ui \<noteq> [] then
                (case chatbot_response U (generate_text c) (chat_input ui) text chs (content_type ui)
                        selected_chapter of
                   Inl e \<Rightarrow> s
                 | Inr response \<Rightarrow>
                     s\<lparr>chat_history :=
                         map_option (\<lambda>h. h @ [\<lparr>user = chat_input ui, bot = response, chapter_key = selected_chapter\<rparr>])
                           (chat_history s)\<rparr>)
              else s)
      | _ \<Rightarrow> s)"

definition main :: "'c chartab \<Rightarrow> 'c collaborators \<Rightarrow> 'c widgets \<Rightarrow> 'c session_state \<Rightarrow> 'c session_state" where
  "main U c ui s =
     (if reset_session ui then reset s
      else
        (case upload U ui (defaults s) of
           Inl s1 \<Rightarrow> s1
         | Inr s1 \<Rightarrow>
             (case extracted_text s1 of
                Some (Some (x # xs)) \<Rightarrow>
                  (case generate_column U c ui s1 of
                     Inl s2 \<Rightarrow> s2
                   | Inr s2 \<Rightarrow> chat_column U c ui s2)
              | _ \<Rightarrow> s1)))"

text \<open>The session after a sequence of runs, the first on a fresh session.\<close>

definition runs :: "'c chartab \<Rightarrow> 'c collaborators \<Rightarrow> 'c widgets list \<Rightarrow> 'c session_state" where
  "runs U c uis = fold (main U c) uis initial_session"

section \<open>Predicates of the properties\<close>

text \<open>
  A heading occurs in a text without regard to case when some stretch of the text matches
  it character by character as \<open>re.IGNORECASE\<close> matches a literal.
\<close>

fun prefix_ci :: "'c chartab \<Rightarrow> 'c list \<Rightarrow> 'c list \<Rightarrow> bool" where
  "prefix_ci U [] s = True"
| "prefix_ci U (c # cs) [] = False"
| "prefix_ci U (c # cs) (x # xs) = (u_ci U c x \<and> prefix_ci U cs xs)"

fun occurs_ci :: "'c chartab \<Rightarrow> 'c list \<Rightarrow> 'c list \<Rightarrow> bool" where
  "occurs_ci U h [] = prefix_ci U h []"
| "occurs_ci U h (x # xs) = (prefix_ci U h (x # xs) \<or> occurs_ci U h xs)"

text \<open>
  The other reading of ``without regard to case'' compares the lower-cased strings: the
  heading occurs when \<open>heading.lower() in text.lower()\<close>.
\<close>

fun starts_with :: "'a list \<Rightarrow> 'a list \<Rightarrow> bool" where
  "starts_with s [] = True"
| "starts_with [] (c # cs) = False"
| "starts_with (x # xs) (c # cs) = (x = c \<and> starts_with xs cs)"

fun contains :: "'a list \<Rightarrow> 'a list \<Rightarrow> bool" where
  "contains [] h = starts_with [] h"
| "contains (x # xs) h = (starts_with (x # xs) h \<or> contains xs h)"

definition occurs_lower :: "'c chartab \<Rightarrow> 'c list \<Rightarrow> 'c list \<Rightarrow> bool" where
  "occurs_lower U h t = contains (u_lower U t) (u_lower U h)"

text \<open>
  The maximal runs of the characters of a class in a text, from left to right; the position
  of the first occurrence of a word in a list; and the ranking of keywords: a word comes
  before another when it is more frequent, or as frequent and met first.
\<close>

function class_runs :: "('c \<Rightarrow> bool) \<Rightarrow> 'c list \<Rightarrow> 'c list list" where
  "class_runs P [] = []"
| "class_runs P (c # cs) =
     (if P c then takeWhile P (c # cs) # class_runs P (dropWhile P cs)
      else class_runs P cs)"
  by pat_completeness auto
termination
  by (relation "measure (\<lambda>(P, s). length s)") (auto simp: length_dropWhile_le less_Suc_eq_le)

definition word_runs :: "'c chartab \<Rightarrow> 'c list \<Rightarrow> 'c list list" where
  "word_runs U s = class_runs (u_word U) s"

definition first_index :: "'a list \<Rightarrow> 'a \<Rightarrow> nat" where
  "first_index ws w = length (takeWhile (\<lambda>x. x \<noteq> w) ws)"

definition ranks_before :: "'a list \<Rightarrow> 'a \<Rightarrow> 'a \<Rightarrow> bool" where
  "ranks_before ws a b =
     (count_list ws a > count_list ws b
      \<or> (count_list ws a = count_list ws b \<and> first_index ws a < first_index ws b))"

text \<open>
  Whether a text begins with a digit; for an item of \<open>findall\<close>, the numeral it holds, the
  chapter number and the title that \<open>extract_chapters\<close> stores for it (none for a tuple that
  is not a pair); and whether \<open>int\<close> converts the numeral.
\<close>

definition digit_next :: "'c chartab \<Rightarrow> 'c list \<Rightarrow> bool" where
  "digit_next U s = (case s of [] \<Rightarrow> False | c # _ \<Rightarrow> u_decimal U c)"

fun numeral :: "'c fmatch \<Rightarrow> 'c list option" where
  "numeral (MTuple [num, label]) = Some num"
| "numeral (MTuple items) = None"
| "numeral (MStr m) = Some m"

definition match_number :: "'c chartab \<Rightarrow> 'c fmatch \<Rightarrow> int option" where
  "match_number U m = map_option (digits_value U) (numeral m)"

fun match_title :: "'c chartab \<Rightarrow> 'c fmatch \<Rightarrow> 'c list" where
  "match_title U (MTuple [num, label]) = strip U label"
| "match_title U (MTuple items) = []"
| "match_title U (MStr m) = lit U ''Chapter '' @ m"

definition short_numeral :: "'c fmatch \<Rightarrow> bool" where
  "short_numeral m = (case numeral m of None \<Rightarrow> True | Some num \<Rightarrow> length num \<le> MAX_STR_DIGITS)"

definition numerals_short :: "'c chartab \<Rightarrow> 'c list \<Rightarrow> bool" where
  \<comment> \<open>every numeral that the four patterns capture in the text has at most 4300 digits\<close>
  "numerals_short U t =
     (\<forall>pattern \<in> set (CHAPTER_PATTERNS U). \<forall>m \<in> set (findall U IGNORECASE pattern t). short_numeral m)"

text \<open>
  What the tables say of the characters of \<open>CHAPTER 2\<close>: each letter of the keyword matches
  itself; no letter after the first matches a \<open>C\<close>; the space is white space; \<open>2\<close> is a digit
  of value 2 and no white space; \<open>C\<close> is neither white space nor a digit.
\<close>

definition heading_chars :: "'c chartab \<Rightarrow> bool" where
  "heading_chars U =
     ((\<forall>x \<in> set ''CHAPTER''. u_ci U (u_chr U x) (u_chr U x))
      \<and> (\<forall>x \<in> set ''HAPTER''. \<not> u_ci U (u_chr U x) (u_chr U CHR ''C''))
      \<and> u_space U (u_chr U CHR '' '') \<and> \<not> u_space U (u_chr U CHR ''2'') \<and> \<not> u_space U (u_chr U CHR ''C'')
      \<and> u_decimal U (u_chr U CHR ''2'') \<and> \<not> u_decimal U (u_chr U CHR ''C'')
      \<and> u_digit U (u_chr U CHR ''2'') = 2)"

text \<open>The bound on the text of the session: no text, or one of at most 12000 characters.\<close>

definition text_bounded :: "'c session_state \<Rightarrow> bool" where
  "text_bounded s = (case extracted_text s of Some (Some t) \<Rightarrow> length t \<le> MAX_CHARS | _ \<Rightarrow> True)"

section \<open>Chapter detection on titled headings\<close>

text \<open>
  C1. On a text made of the lines \<open>Chapter 3: Intro\<close> and \<open>Chapter 4: Next\<close> the detector
  should return the titles \<open>Intro\<close> and \<open>Next\<close>. The two titled patterns do record them, but
  the bare pattern \<open>CHAPTER\s+(\d+)\<close>, applied after them without regard to case, matches
  the same headings and overwrites each title with the default \<open>Chapter N\<close>.
\<close>

theorem extract_chapters_overwrites_titles:
  "extract_chapters latin1 ''Chapter 3: Intro\<newline>Chapter 4: Next''
     = Inr [(3, ''Chapter 3''), (4, ''Chapter 4'')]
   \<and> fold_err (apply_pattern latin1 ''Chapter 3: Intro\<newline>Chapter 4: Next'') (take 2 (CHAPTER_PATTERNS latin1)) []
       = Inr [(3, ''Intro''), (4, ''Next'')]"
  by code_simp

section \<open>The chapter-scoped text\<close>

text \<open>
  C2. On the text \<open>Chapter 1: A / foo / Chapter 2: B / bar\<close> with chapter 1 and the map
  \<open>{1: A, 2: B}\<close> the chat path returns \<open>foo\<close>, the span up to the next chapter heading. The
  Generate path of \<open>main\<close> does not stop at the next heading: its pattern is written with
  doubled backslashes in a raw string, so it returns everything up to the end of the text.
  The same happens on an uploaded text whose detected map holds the headings that occur in
  it: \<open>Chapter 1: Chapter 1 / foo / Chapter 2: Chapter 2 / bar\<close>.
\<close>

theorem chapter_text_paths_differ:
  "chat_context latin1 ''Chapter 1: A\<newline>foo\<newline>Chapter 2: B\<newline>bar'' [(1, ''A''), (2, ''B'')] ''Book'' (Some 1)
     = Inr ''foo''
   \<and> generate_chapter_text latin1 ''Chapter 1: A\<newline>foo\<newline>Chapter 2: B\<newline>bar'' [(1, ''A''), (2, ''B'')]
       ''Book'' (Some 1)
     = Inr ''foo\<newline>Chapter 2: B\<newline>bar''
   \<and> extract_chapters latin1 ''Chapter 1: Chapter 1\<newline>foo\<newline>Chapter 2: Chapter 2\<newline>bar''
     = Inr [(1, ''Chapter 1''), (2, ''Chapter 2'')]
   \<and> chat_context latin1 ''Chapter 1: Chapter 1\<newline>foo\<newline>Chapter 2: Chapter 2\<newline>bar''
       [(1, ''Chapter 1''), (2, ''Chapter 2'')] ''Book'' (Some 1)
     = Inr ''foo''
   \<and> generate_chapter_text latin1 ''Chapter 1: Chapter 1\<newline>foo\<newline>Chapter 2: Chapter 2\<newline>bar''
       [(1, ''Chapter 1''), (2, ''Chapter 2'')] ''Book'' (Some 1)
     = Inr ''foo\<newline>Chapter 2: Chapter 2\<newline>bar''"
  by code_simp

text \<open>The recursive predicates say what their names say.\<close>

lemma prefix_ci_iff:
  "prefix_ci U h s \<longleftrightarrow> (\<exists>mid post. s = mid @ post \<and> list_all2 (u_ci U) h mid)"
proof (induction U h s rule: prefix_ci.induct)
  case (1 U s)
  then show ?case by simp
next
  case (2 U c cs)
  then show ?case by simp
next
  case (3 U c cs x xs)
  show ?case
  proof
    assume "prefix_ci U (c # cs) (x # xs)"
    then obtain mid post where "xs = mid @ post" "list_all2 (u_ci U) cs mid" "u_ci U c x"
      using 3 by auto
    then have "x # xs = (x # mid) @ post \<and> list_all2 (u_ci U) (c # cs) (x # mid)"
      by simp
    then show "\<exists>mid post. x # xs = mid @ post \<and> list_all2 (u_ci U) (c # cs) mid" by blast
  next
    assume "\<exists>mid post. x # xs = mid @ post \<and> list_all2 (u_ci U) (c # cs) mid"
    then obtain mid post where m: "x # xs = mid @ post" "list_all2 (u_ci U) (c # cs) mid" by blast
    then obtain y m' where "mid = y # m'" by (cases mid) auto
    with m show "prefix_ci U (c # cs) (x # xs)" using 3 by auto
  qed
qed

lemma occurs_ci_iff:
  "occurs_ci U h t \<longleftrightarrow> (\<exists>pre mid post. t = pre @ mid @ post \<and> list_all2 (u_ci U) h mid)"
proof (induction t)
  case Nil
  then show ?case by (auto simp: prefix_ci_iff)
next
  case (Cons x xs)
  show ?case
  proof
    assume "occurs_ci U h (x # xs)"
    then consider "prefix_ci U h (x # xs)" | "occurs_ci U h xs" by auto
    then show "\<exists>pre mid post. x # xs = pre @ mid @ post \<and> list_all2 (u_ci U) h mid"
    proof cases
      case 1
      then obtain mid post where "x # xs = [] @ mid @ post \<and> list_all2 (u_ci U) h mid"
        by (auto simp: prefix_ci_iff)
      then show ?thesis by blast
    next
      case 2
      then obtain pre mid post where "xs = pre @ mid @ post" "list_all2 (u_ci U) h mid"
        using Cons by blast
      then have "x # xs = (x # pre) @ mid @ post \<and> list_all2 (u_ci U) h mid" by simp
      then show ?thesis by blast
    qed
  next
    assume "\<exists>pre mid post. x # xs = pre @ mid @ post \<and> list_all2 (u_ci U) h mid"
    then obtain pre mid post where m: "x # xs = pre @ mid @ post" "list_all2 (u_ci U) h mid" by blast
    show "occurs_ci U h (x # xs)"
    proof (cases pre)
      case Nil
      with m have "prefix_ci U h (x # xs)" by (auto simp: prefix_ci_iff)
      then show ?thesis by simp
    next
      case (Cons y ys)
      with m have "xs = ys @ mid @ post" by simp
      with m have "occurs_ci U h xs" using Cons.IH by blast
      then show ?thesis by simp
    qed
  qed
qed

lemma ms_lits_prefix:
  "ignorecase fl \<Longrightarrow> ms U fl (lits h) (p, s, g) \<noteq> [] \<Longrightarrow> prefix_ci U h s"
proof (induction h arbitrary: p s g)
  case Nil
  then show ?case by simp
next
  case (Cons c cs)
  show ?case
  proof (cases s)
    case Nil
    with Cons.prems show ?thesis by simp
  next
    case (Cons x xs)
    with Cons.prems Cons.IH[of "Some x" xs g] show ?thesis
      by (auto split: if_splits)
  qed
qed

lemma scope_pattern_no_prefix:
  "\<not> prefix_ci U h s \<Longrightarrow> match_at U DOTALL_IGNORECASE (scope_pattern nxt h) p s = None"
proof -
  assume "\<not> prefix_ci U h s"
  then have "ms U DOTALL_IGNORECASE (lits h) (p, s, []) = []"
    using ms_lits_prefix[of DOTALL_IGNORECASE U h p s "[]"] by (auto simp: DOTALL_IGNORECASE_def)
  then show ?thesis by (simp add: match_at_def scope_pattern_def)
qed

lemma search_from_absent:
  "\<not> occurs_ci U h t \<Longrightarrow> search_from U DOTALL_IGNORECASE (scope_pattern nxt h) p t = None"
proof (induction t arbitrary: p)
  case Nil
  then show ?case by (simp add: scope_pattern_no_prefix)
next
  case (Cons x xs)
  then show ?case by (simp add: scope_pattern_no_prefix)
qed

lemma prefix_ci_latin1:
  "prefix_ci latin1 h s = starts_with (lower s) (lower h)"
proof (induction h arbitrary: s)
  case Nil
  then show ?case by (simp add: lower_def)
next
  case (Cons c cs)
  then show ?case by (cases s) (auto simp: lower_def latin1_def)
qed

lemma occurs_ci_latin1:
  "occurs_ci latin1 h t = occurs_lower latin1 h t"
proof -
  have "occurs_ci latin1 h t = contains (lower t) (lower h)"
  proof (induction t)
    case Nil
    then show ?case by (simp add: prefix_ci_latin1) (simp add: lower_def)
  next
    case (Cons x xs)
    have "prefix_ci latin1 h (x # xs) = starts_with (lower (x # xs)) (lower h)"
      by (rule prefix_ci_latin1)
    with Cons show ?case by (simp add: lower_def)
  qed
  then show ?thesis by (simp add: occurs_lower_def latin1_def)
qed

text \<open>
  C3, with ``does not occur, without regard to case'' read as a comparison of the
  lower-cased strings, fails beyond U+00FF: the program looks for the heading with a
  case-insensitive search, and the lower-cased heading can be absent from the lower-cased
  text while the search finds it. On the code points of \<open>extended\<close>, the text
  \<open>Section 1: Fire\<close>, \<open>Chapter 1: F\<close>U+0130\<open>re\<close>, \<open>body\<close> (three lines) gives the map with the
  title \<open>Fire\<close> for chapter 1; \<open>str.lower\<close> turns U+0130 into an i and a combining dot, so
  \<open>chapter 1: fire\<close> is not in the lower-cased text; the search matches U+0130 with the i of
  the heading, and both paths return \<open>body\<close>, not the full text.
\<close>

theorem heading_found_beyond_lower_case:
  "extract_chapters extended
       (lit extended ''Section 1: Fire\<newline>Chapter 1: F'' @ [U0130] @ lit extended ''re\<newline>body'')
     = Inr [(1, lit extended ''Fire'')]
   \<and> \<not> occurs_lower extended (chapter_heading extended 1 (lit extended ''Fire''))
       (lit extended ''Section 1: Fire\<newline>Chapter 1: F'' @ [U0130] @ lit extended ''re\<newline>body'')
   \<and> chat_context extended
       (lit extended ''Section 1: Fire\<newline>Chapter 1: F'' @ [U0130] @ lit extended ''re\<newline>body'')
       [(1, lit extended ''Fire'')] (lit extended ''Book'') (Some 1)
     = Inr (lit extended ''body'')
   \<and> generate_chapter_text extended
       (lit extended ''Section 1: Fire\<newline>Chapter 1: F'' @ [U0130] @ lit extended ''re\<newline>body'')
       [(1, lit extended ''Fire'')] (lit extended ''Book'') (Some 1)
     = Inr (lit extended ''body'')"
  by code_simp

text \<open>
  C3, amended. When no stretch of the full text matches the heading rebuilt from the
  chapter number and its title in the map, character by character as the case-insensitive
  search matches a literal, both the chat path and the Generate path return the full text
  unchanged. This holds for texts over any characters and for any tables of the
  interpreter. For a text and a title within U+0000 to U+00FF the condition is that the
  lower-cased heading is not in the lower-cased text.
\<close>

theorem heading_absent_falls_back:
  "(map_of chs n = Some title \<and> \<not> occurs_ci U (chapter_heading U n title) full_text
      \<longrightarrow> chat_context U full_text chs ctype (Some n) = Inr full_text
        \<and> generate_chapter_text U full_text chs ctype (Some n) = Inr full_text)
   \<and> (map_of chs_l n_l = Some title_l
        \<and> \<not> occurs_lower latin1 (chapter_heading latin1 n_l title_l) text_l
      \<longrightarrow> chat_context latin1 text_l chs_l ctype_l (Some n_l) = Inr text_l
        \<and> generate_chapter_text latin1 text_l chs_l ctype_l (Some n_l) = Inr text_l)"
proof -
  have fall: "chat_context V s d k (Some i) = Inr s \<and> generate_chapter_text V s d k (Some i) = Inr s"
    if "map_of d i = Some a" and "\<not> occurs_ci V (chapter_heading V i a) s" for V s d k i a
  proof -
    have g: "getitem d i = Inr a" using that(1) by (simp add: getitem_def)
    have ne: "d \<noteq> []" using that(1) by auto
    show ?thesis
      using that(2) g ne
      by (simp add: chat_context_def generate_chapter_text_def search_def search_from_absent)
  qed
  have 1: "chat_context U full_text chs ctype (Some n) = Inr full_text
        \<and> generate_chapter_text U full_text chs ctype (Some n) = Inr full_text"
    if "map_of chs n = Some title \<and> \<not> occurs_ci U (chapter_heading U n title) full_text"
    using that fall by blast
  have 2: "chat_context latin1 text_l chs_l ctype_l (Some n_l) = Inr text_l
        \<and> generate_chapter_text latin1 text_l chs_l ctype_l (Some n_l) = Inr text_l"
    if "map_of chs_l n_l = Some title_l
        \<and> \<not> occurs_lower latin1 (chapter_heading latin1 n_l title_l) text_l"
    using that fall[of chs_l n_l title_l latin1 text_l ctype_l] by (simp add: occurs_ci_latin1)
  from 1 2 show ?thesis by blast
qed

theorem heading_absent_falls_back_witness:
  "chat_context latin1 ''CHAPTER 2\<newline>body'' [(2, ''Chapter 2'')] ''Book'' (Some 2) = Inr ''CHAPTER 2\<newline>body''
   \<and> generate_chapter_text latin1 ''CHAPTER 2\<newline>body'' [(2, ''Chapter 2'')] ''Book'' (Some 2)
       = Inr ''CHAPTER 2\<newline>body''
   \<and> chat_context extended (lit extended ''Chapter 1: F'' @ [U0307] @ lit extended ''ire\<newline>body'')
       [(1, lit extended ''Fire'')] (lit extended ''Book'') (Some 1)
       = Inr (lit extended ''Chapter 1: F'' @ [U0307] @ lit extended ''ire\<newline>body'')"
proof -
  have a: "map_of [(2::int, ''Chapter 2'')] 2 = Some ''Chapter 2''" by simp
  have b: "\<not> occurs_ci latin1 (chapter_heading latin1 2 ''Chapter 2'') ''CHAPTER 2\<newline>body''" by code_simp
  have c: "\<not> occurs_lower latin1 (chapter_heading latin1 2 ''Chapter 2'') ''CHAPTER 2\<newline>body''" by code_simp
  have d: "map_of [(1::int, lit extended ''Fire'')] 1 = Some (lit extended ''Fire'')" by simp
  have e: "\<not> occurs_ci extended (chapter_heading extended 1 (lit extended ''Fire''))
      (lit extended ''Chapter 1: F'' @ [U0307] @ lit extended ''ire\<newline>body'')" by code_simp
  show ?thesis
    using heading_absent_falls_back[of "[(2, ''Chapter 2'')]" 2 "''Chapter 2''" latin1 "''CHAPTER 2\<newline>body''"
        "''Book''" "[(2, ''Chapter 2'')]" 2 "''Chapter 2''" "''CHAPTER 2\<newline>body''" "''Book''"]
      heading_absent_falls_back[of "[(1, lit extended ''Fire'')]" 1 "lit extended ''Fire''" extended
        "lit extended ''Chapter 1: F'' @ [U0307] @ lit extended ''ire\<newline>body''"
        "lit extended ''Book''" "[]" 0 "[]" "[]" "[]"]
      a b c d e
    by simp
qed

section \<open>The prompts handed to the generator\<close>

lemma chat_context_total: "\<exists>context. chat_context U full_text chs ctype sel = Inr context"
proof (cases sel)
  case None
  then show ?thesis by (simp add: chat_context_def)
next
  case (Some n)
  show ?thesis
  proof (cases "ctype = lit U ''Book'' \<and> n \<noteq> 0 \<and> n \<in> set (map fst chs)")
    case True
    then have "n \<in> fst ` set chs" by simp
    then obtain title where "map_of chs n = Some title"
      by (metis domD dom_map_of_conv_image_fst)
    then have "getitem chs n = Inr title" by (simp add: getitem_def)
    with Some True show ?thesis
      by (simp add: chat_context_def split: option.split)
  next
    case False
    with Some show ?thesis by (auto simp: chat_context_def)
  qed
qed


text \<open>
  C10. \<open>chatbot_response\<close> never fails with a key error: the context is always computed. When
  the content type is not Book, or no chapter is selected, or the selected number is not a
  key of the chapter map, the context is the full extracted text, cut to 3000 characters in
  the prompt.
\<close>

theorem chat_context_never_key_error:
  "(\<exists>context. chat_context U full_text chs ctype sel = Inr context)
   \<and> (ctype \<noteq> lit U ''Book'' \<or> sel = None \<or> (\<exists>n. sel = Some n \<and> n \<notin> set (map fst chs))
        \<longrightarrow> chat_context U full_text chs ctype sel = Inr full_text
          \<and> chatbot_response U gen question full_text chs ctype sel = gen (chat_prompt U (take 3000 full_text) question))"
proof -
  have "chat_context U full_text chs ctype sel = Inr full_text"
    if "ctype \<noteq> lit U ''Book'' \<or> sel = None \<or> (\<exists>n. sel = Some n \<and> n \<notin> set (map fst chs))"
    using that by (auto simp: chat_context_def split: option.split)
  then show ?thesis
    using chat_context_total[of U full_text chs ctype sel] by (auto simp: chatbot_response_def)
qed

theorem chat_context_never_key_error_witness:
  "chat_context latin1 ''abc'' [(1, ''A'')] ''Book'' (Some 7) = Inr ''abc''
   \<and> chatbot_response latin1 Inr ''why?'' ''abc'' [(1, ''A'')] ''Book'' (Some 7)
       = Inr (chat_prompt latin1 ''abc'' ''why?'')"
  using chat_context_never_key_error[of latin1 "''abc''" "[(1, ''A'')]" "''Book''" "Some 7" Inr "''why?''"]
  by simp

section \<open>What the exports write\<close>

text \<open>
  C6, as stated, fails for the Word export: \<open>export_to_word\<close> adds the whole text as a single
  paragraph and does not split it at newlines.
\<close>

theorem word_export_is_one_paragraph:
  "word_document ''a\<newline>b'' = [AddParagraph ''a\<newline>b'']
   \<and> word_document ''a\<newline>b'' \<noteq> map AddParagraph (split_on (nl latin1) ''a\<newline>b'')
   \<and> split_on (nl latin1) ''a\<newline>b'' = [''a'', ''b'']"
  by (simp add: word_document_def nl_def latin1_def)

lemma fold_snoc_map: "fold (\<lambda>x acc. acc @ [f x]) xs init = init @ map f xs"
  by (induction xs arbitrary: init) auto

lemma encode_latin1_id: "encode_latin1 latin1 s = Inr s"
  by (induction s) (simp_all add: latin1_def)

text \<open>
  C6, amended. The PDF export writes one cell for each line of the text, split at newlines;
  the Word export writes the whole text as one paragraph. When the writer library returns
  the document, each export returns a buffer holding its bytes with its position at zero:
  for the Word export the bytes that the library wrote, for the PDF export the Latin-1
  encoding of the string that the library returned (the export raises when this string does
  not encode). Over the code points U+0000 to U+00FF every string encodes, as itself.
\<close>

theorem export_documents:
  "pdf_document U t
     = [AddPage, SetAutoPageBreak True 15, SetFont ''Arial'' 12] @ map (MultiCell 0 10) (split_on (nl U) t)
   \<and> word_document t = [AddParagraph t]
   \<and> (render (pdf_document U t) = Inr returned \<longrightarrow>
        export_to_pdf U render t
          = (case encode_latin1 U returned of Inl e \<Rightarrow> Inl e | Inr bytes \<Rightarrow> Inr \<lparr>content = bytes, pos = 0\<rparr>))
   \<and> (render_l (pdf_document latin1 t_l) = Inr bytes_l \<longrightarrow>
        export_to_pdf latin1 render_l t_l = Inr \<lparr>content = bytes_l, pos = 0\<rparr>)
   \<and> (save (word_document t) = Inr written \<longrightarrow> export_to_word save t = Inr \<lparr>content = written, pos = 0\<rparr>)"
  by (simp add: pdf_document_def fold_snoc_map word_document_def export_to_pdf_def export_to_word_def
      seek_def BytesIO_def bytes_write_def encode_latin1_id split: sum.split)

theorem export_documents_witness:
  "pdf_document latin1 ''a\<newline>b''
     = [AddPage, SetAutoPageBreak True 15, SetFont ''Arial'' 12, MultiCell 0 10 ''a'', MultiCell 0 10 ''b'']
   \<and> word_document ''a\<newline>b'' = [AddParagraph ''a\<newline>b'']
   \<and> export_to_pdf latin1 (\<lambda>calls. Inr ''PDF'') ''a\<newline>b'' = Inr \<lparr>content = ''PDF'', pos = 0\<rparr>
   \<and> export_to_word (\<lambda>calls. Inr ''DOCX'') ''a\<newline>b'' = Inr \<lparr>content = ''DOCX'', pos = 0\<rparr>"
  using export_documents[where U = latin1 and t = "''a\<newline>b''" and render = "\<lambda>calls. Inr ''PDF''"
      and returned = "''PDF''" and render_l = "\<lambda>calls. Inr ''PDF''" and t_l = "''a\<newline>b''" and bytes_l = "''PDF''"
      and save = "\<lambda>calls. Inr ''DOCX''" and written = "''DOCX''"]
  by (simp add: nl_def latin1_def)

section \<open>The bound on the extracted text\<close>

lemma upload_text:
  "upload U ui s = Inl s' \<or> upload U ui s = Inr s' \<Longrightarrow>
   (case uploaded_file ui of
      None \<Rightarrow> extracted_text s' = extracted_text s
    | Some file \<Rightarrow>
        (case parse U file of
           Some (Inr out) \<Rightarrow> extracted_text s' = Some (Some (take MAX_CHARS out))
         | _ \<Rightarrow> extracted_text s' = extracted_text s))"
  by (auto simp: upload_def Let_def split: option.splits sum.splits if_splits)

lemma generate_column_text:
  "generate_column U c ui s = Inl s' \<or> generate_column U c ui s = Inr s' \<Longrightarrow> extracted_text s' = extracted_text s"
  by (auto simp: generate_column_def Let_def split: option.splits sum.splits if_splits)

lemma chat_column_text: "extracted_text (chat_column U c ui s) = extracted_text s"
  by (auto simp: chat_column_def Let_def split: option.splits sum.splits if_splits)

lemma after_upload_text:
  assumes "upload U ui (defaults s) = Inl s1 \<or> upload U ui (defaults s) = Inr s1"
  shows "extracted_text
           (case upload U ui (defaults s) of
              Inl s1 \<Rightarrow> s1
            | Inr s1 \<Rightarrow>
                (case extracted_text s1 of
                   Some (Some (x # xs)) \<Rightarrow>
                     (case generate_column U c ui s1 of Inl s2 \<Rightarrow> s2 | Inr s2 \<Rightarrow> chat_column U c ui s2)
                 | _ \<Rightarrow> s1)) = extracted_text s1"
proof (cases "upload U ui (defaults s)")
  case (Inl a)
  with assms show ?thesis by simp
next
  case (Inr b)
  with assms have b: "b = s1" by simp
  show ?thesis
  proof (cases "generate_column U c ui s1")
    case (Inl s2)
    then have "extracted_text s2 = extracted_text s1" using generate_column_text by blast
    with Inr b Inl show ?thesis by (simp split: option.split list.split)
  next
    case r: (Inr s2)
    then have "extracted_text s2 = extracted_text s1" using generate_column_text by blast
    with Inr b r show ?thesis by (simp add: chat_column_text split: option.split list.split)
  qed
qed

lemma main_text:
  "extracted_text (main U c ui s) =
     (if reset_session ui then None
      else case uploaded_file ui of
             None \<Rightarrow> extracted_text (defaults s)
           | Some file \<Rightarrow>
               (case parse U file of
                  Some (Inr out) \<Rightarrow> Some (Some (take MAX_CHARS out))
                | _ \<Rightarrow> extracted_text (defaults s)))"
proof (cases "reset_session ui")
  case True
  then show ?thesis by (simp add: main_def reset_def)
next
  case False
  obtain s1 where s1: "upload U ui (defaults s) = Inl s1 \<or> upload U ui (defaults s) = Inr s1"
    by (cases "upload U ui (defaults s)") auto
  have "extracted_text (main U c ui s) = extracted_text s1"
    using False after_upload_text[OF s1] by (simp add: main_def)
  with upload_text[OF s1] False show ?thesis
    by (auto split: option.splits sum.splits)
qed

lemma defaults_bounded: "text_bounded (defaults s) = text_bounded s"
  by (simp add: text_bounded_def defaults_def split: option.split)

lemma main_bounded: "text_bounded s \<Longrightarrow> text_bounded (main U c ui s)"
  using defaults_bounded[of s]
  by (auto simp: text_bounded_def main_text MAX_CHARS_def split: option.splits sum.splits)

lemma fold_main_bounded: "text_bounded s \<Longrightarrow> text_bounded (fold (main U c) uis s)"
  by (induction uis arbitrary: s) (auto simp: main_bounded)

text \<open>
  C9. After any sequence of runs from a fresh session the extracted text, when there is one,
  has at most 12000 characters, and a run preserves this bound. A run that uploads a document
  whose parser output is longer than 12000 characters stores exactly its first 12000
  characters. A run leaves the extracted text as it was (with the default \<open>None\<close> for a missing
  key), clears it (reset), or stores the first 12000 characters of the parser output.
\<close>

theorem extracted_text_bounded:
  "text_bounded (runs U c uis)
   \<and> (text_bounded s \<longrightarrow> text_bounded (main U c ui s))
   \<and> (\<not> reset_session ui \<and> uploaded_file ui = Some file \<and> parse U file = Some (Inr out) \<and> length out > 12000
        \<longrightarrow> extracted_text (main U c ui s) = Some (Some (take 12000 out)))
   \<and> (extracted_text (main U c ui s) = None
        \<or> extracted_text (main U c ui s) = extracted_text (defaults s)
        \<or> (\<exists>file out. uploaded_file ui = Some file \<and> parse U file = Some (Inr out)
              \<and> extracted_text (main U c ui s) = Some (Some (take 12000 out))))"
proof -
  have 1: "text_bounded (runs U c uis)"
    unfolding runs_def by (rule fold_main_bounded) (simp add: text_bounded_def initial_session_def)
  have 2: "text_bounded s \<longrightarrow> text_bounded (main U c ui s)" by (simp add: main_bounded)
  have 3: "\<not> reset_session ui \<and> uploaded_file ui = Some file \<and> parse U file = Some (Inr out) \<and> length out > 12000
        \<longrightarrow> extracted_text (main U c ui s) = Some (Some (take 12000 out))"
    by (simp add: main_text MAX_CHARS_def)
  have 4: "extracted_text (main U c ui s) = None
        \<or> extracted_text (main U c ui s) = extracted_text (defaults s)
        \<or> (\<exists>file out. uploaded_file ui = Some file \<and> parse U file = Some (Inr out)
              \<and> extracted_text (main U c ui s) = Some (Some (take 12000 out)))"
    by (auto simp: main_text MAX_CHARS_def split: option.splits sum.splits)
  from 1 2 3 4 show ?thesis by blast
qed

theorem extracted_text_bounded_witness:
  "text_bounded (main latin1 \<lparr>generate_text = Inr, stop_words = [], pdf_output = (\<lambda>calls. Inr []), docx_save = (\<lambda>calls. Inr [])\<rparr>
      \<lparr>reset_session = False, content_type = ''Syllabus'',
       uploaded_file = Some \<lparr>name = ''notes.docx'', pdf_pages = Inr [],
                               docx_text = Inr (replicate 12001 (CHR ''a''))\<rparr>,
       task_choice = Summarize, export_format = ''PDF'', chapter_choice = None, generate = False,
       export_all = False, chat_chapter = None, chat_input = []\<rparr> initial_session)
   \<and> extracted_text (main latin1 \<lparr>generate_text = Inr, stop_words = [], pdf_output = (\<lambda>calls. Inr []), docx_save = (\<lambda>calls. Inr [])\<rparr>
      \<lparr>reset_session = False, content_type = ''Syllabus'',
       uploaded_file = Some \<lparr>name = ''notes.docx'', pdf_pages = Inr [],
                               docx_text = Inr (replicate 12001 (CHR ''a''))\<rparr>,
       task_choice = Summarize, export_format = ''PDF'', chapter_choice = None, generate = False,
       export_all = False, chat_chapter = None, chat_input = []\<rparr> initial_session)
     = Some (Some (replicate 12000 (CHR ''a'')))"
proof -
  let ?file = "\<lparr>name = ''notes.docx'', pdf_pages = Inr [], docx_text = Inr (replicate 12001 (CHR ''a''))\<rparr>"
  let ?ui = "\<lparr>reset_session = False, content_type = ''Syllabus'', uploaded_file = Some ?file,
       task_choice = Summarize, export_format = ''PDF'', chapter_choice = None, generate = False,
       export_all = False, chat_chapter = None, chat_input = []\<rparr>"
  have p: "parse latin1 ?file = Some (Inr (replicate 12001 (CHR ''a'')))"
    by (simp add: parse_def endswith_def latin1_def lit_def lower_def lower_char_def ord_def)
  have b: "text_bounded (initial_session :: char session_state)"
    by (simp add: text_bounded_def initial_session_def)
  show ?thesis
    using extracted_text_bounded[of latin1 "\<lparr>generate_text = Inr, stop_words = [], pdf_output = (\<lambda>calls. Inr []), docx_save = (\<lambda>calls. Inr [])\<rparr>" "[]" initial_session ?ui ?file "replicate 12001 (CHR ''a'')"] p b
    by simp
qed

section \<open>The ranking of keywords\<close>

text \<open>The pattern \<open>\b\w+\b\<close> finds the maximal runs of word characters.\<close>

lemma boundary_after_run:
  "concat (map (ms U fl WordBoundary) (greedy_plus (u_word U) (p, s, g)))
     = (if word_after U s then [(Some (last (takeWhile (u_word U) s)), dropWhile (u_word U) s, g)] else [])"
proof (induction s arbitrary: p)
  case Nil
  then show ?case by (simp add: word_after_def)
next
  case (Cons c cs)
  show ?case
  proof (cases "u_word U c")
    case False
    then show ?thesis by (simp add: word_after_def)
  next
    case True
    show ?thesis
    proof (cases "word_after U cs")
      case w: True
      then have "cs \<noteq> []" "u_word U (hd cs)" by (auto simp: word_after_def split: list.splits)
      then have "takeWhile (u_word U) cs \<noteq> []" by (cases cs) auto
      with True w Cons.IH[of "Some c"] show ?thesis
        by (simp add: word_after_def word_before_def)
    next
      case w: False
      then have "takeWhile (u_word U) cs = []" "dropWhile (u_word U) cs = cs"
        by (auto simp: word_after_def split: list.splits)
      with True w Cons.IH[of "Some c"] show ?thesis
        by (simp add: word_after_def word_before_def)
    qed
  qed
qed

lemma match_at_word:
  "match_at U NOFLAGS word_pattern p s
     = (if \<not> word_before U p \<and> word_after U s
        then Some (Some (last (takeWhile (u_word U) s)), dropWhile (u_word U) s, []) else None)"
proof -
  have atom: "atom_ok U NOFLAGS (In WordChar) = u_word U" by (rule ext) simp
  show ?thesis
    by (auto simp: match_at_def word_pattern_def atom boundary_after_run)
qed

lemma take_length_dropWhile: "take (length s - length (dropWhile P s)) s = takeWhile P s"
proof -
  have "length s = length (takeWhile P s) + length (dropWhile P s)"
    by (metis length_append takeWhile_dropWhile_id)
  then have "length s - length (dropWhile P s) = length (takeWhile P s)" by simp
  then show ?thesis by (metis append_eq_conv_conj takeWhile_dropWhile_id)
qed

lemma item_word: "item word_pattern w g = MStr w"
  by (simp add: item_def word_pattern_def)

lemma findall_words:
  "\<not> word_before U p \<or> \<not> word_after U s \<Longrightarrow> findall_from U NOFLAGS word_pattern p s = map MStr (class_runs (u_word U) s)"
proof (induction "length s" arbitrary: p s rule: less_induct)
  case less
  show ?case
  proof (cases s)
    case Nil
    then show ?thesis
      by (subst findall_from.simps) (simp add: match_at_word word_after_def)
  next
    case (Cons c cs)
    show ?thesis
    proof (cases "u_word U c")
      case True
      with Cons less.prems have nb: "\<not> word_before U p" by (simp add: word_after_def)
      let ?s' = "dropWhile (u_word U) s"
      have s': "?s' = dropWhile (u_word U) cs" using True Cons by simp
      have shorter: "length ?s' < length s"
        using s' Cons by (simp add: length_dropWhile_le less_Suc_eq_le)
      have run: "takeWhile (u_word U) s \<noteq> []" using True Cons by simp
      have "\<not> word_after U ?s'"
      proof (cases ?s')
        case n: Nil
        show ?thesis unfolding word_after_def n by simp
      next
        case d: (Cons a l)
        then have "\<not> u_word U a" using hd_dropWhile[of "u_word U" s] by simp
        then show ?thesis unfolding word_after_def d by simp
      qed
      then have ih: "findall_from U NOFLAGS word_pattern (Some (last (takeWhile (u_word U) s))) ?s'
                  = map MStr (class_runs (u_word U) ?s')"
        using less.hyps[OF shorter] by blast
      have wa: "word_after U s" using True Cons by (simp add: word_after_def)
      have "findall_from U NOFLAGS word_pattern p s
          = item word_pattern (take (length s - length ?s') s) []
              # findall_from U NOFLAGS word_pattern (Some (last (takeWhile (u_word U) s))) ?s'"
        using nb wa shorter by (subst findall_from.simps) (simp add: match_at_word)
      also have "\<dots> = MStr (takeWhile (u_word U) s) # map MStr (class_runs (u_word U) ?s')"
        by (simp add: ih take_length_dropWhile item_word)
      finally show ?thesis using True Cons s' by simp
    next
      case False
      have "findall_from U NOFLAGS word_pattern (Some c) cs = map MStr (class_runs (u_word U) cs)"
        using less.hyps[of cs "Some c"] Cons False by (simp add: word_before_def)
      moreover have "findall_from U NOFLAGS word_pattern p s = findall_from U NOFLAGS word_pattern (Some c) cs"
        using False Cons by (subst findall_from.simps) (simp add: match_at_word word_after_def)
      ultimately show ?thesis using False Cons by simp
    qed
  qed
qed

lemma words_are_runs: "map text_of (findall U NOFLAGS word_pattern t) = word_runs U t"
  by (simp add: findall_def findall_words word_before_def word_runs_def comp_def)

text \<open>
  The counter lists each word once, in the order of the first occurrences, with the number
  of its occurrences.
\<close>

lemma keys_tally: "map fst (tally w kns) = (if w \<in> set (map fst kns) then map fst kns else map fst kns @ [w])"
proof (induction kns)
  case Nil
  then show ?case by simp
next
  case (Cons kn kns)
  obtain k n where kn: "kn = (k, n)" by (cases kn)
  show ?case using Cons unfolding kn by (cases "k = w") (simp_all split: if_splits)
qed

lemma map_of_tally:
  "map_of (tally w kns) x =
     (if x = w then Some (case map_of kns w of None \<Rightarrow> 1 | Some n \<Rightarrow> Suc n) else map_of kns x)"
  by (induction kns) auto

lemma Counter_snoc: "Counter (ws @ [w]) = tally w (Counter ws)"
  by (simp add: Counter_def)

lemma Counter_keys_set: "set (map fst (Counter ws)) = set ws"
proof (induction ws rule: rev_induct)
  case Nil
  then show ?case by (simp add: Counter_def)
next
  case (snoc w ws)
  then show ?case by (auto simp: Counter_snoc keys_tally)
qed

lemma Counter_keys_distinct: "distinct (map fst (Counter ws))"
proof (induction ws rule: rev_induct)
  case Nil
  then show ?case by (simp add: Counter_def)
next
  case (snoc w ws)
  then show ?case by (simp add: Counter_snoc keys_tally)
qed

lemma Counter_counts: "map_of (Counter ws) w = (if w \<in> set ws then Some (count_list ws w) else None)"
proof (induction ws rule: rev_induct)
  case Nil
  then show ?case by (simp add: Counter_def)
next
  case (snoc x ws)
  then show ?case by (auto simp: Counter_snoc map_of_tally)
qed

lemma Counter_item: "(w, n) \<in> set (Counter ws) \<Longrightarrow> n = count_list ws w"
proof -
  assume a: "(w, n) \<in> set (Counter ws)"
  then have "map_of (Counter ws) w = Some n"
    using Counter_keys_distinct[of ws] by simp
  then show ?thesis by (simp add: Counter_counts split: if_splits)
qed

lemma first_index_snoc:
  "first_index (ws @ [w]) a = (if a \<in> set ws then first_index ws a else if a = w then length ws else Suc (length ws))"
proof (cases "a \<in> set ws")
  case True
  then show ?thesis by (simp add: first_index_def takeWhile_append1) 
next
  case False
  then have "takeWhile (\<lambda>x. x \<noteq> a) ws = ws" by (auto intro: takeWhile_eq_all_conv[THEN iffD2])
  with False show ?thesis by (simp add: first_index_def takeWhile_append2)
qed

lemma first_index_less: "a \<in> set ws \<Longrightarrow> first_index ws a < length ws"
  unfolding first_index_def by (induction ws) auto

lemma Counter_keys_order:
  "sorted_wrt (\<lambda>a b. first_index ws a < first_index ws b) (map fst (Counter ws))"
proof (induction ws rule: rev_induct)
  case Nil
  then show ?case by (simp add: Counter_def)
next
  case (snoc w ws)
  have keep: "sorted_wrt (\<lambda>a b. first_index (ws @ [w]) a < first_index (ws @ [w]) b) (map fst (Counter ws))"
  proof (rule sorted_wrt_mono_rel[OF _ snoc])
    fix a b
    assume "a \<in> set (map fst (Counter ws))" "b \<in> set (map fst (Counter ws))"
      and "first_index ws a < first_index ws b"
    then have "a \<in> set ws" "b \<in> set ws" "first_index ws a < first_index ws b"
      unfolding Counter_keys_set by blast+
    then show "first_index (ws @ [w]) a < first_index (ws @ [w]) b"
      by (simp add: first_index_snoc)
  qed
  show ?case
  proof (cases "w \<in> set ws")
    case True
    then have "map fst (Counter (ws @ [w])) = map fst (Counter ws)"
      using Counter_keys_set[of ws] by (simp only: Counter_snoc keys_tally if_True)
    then show ?thesis using keep by simp
  next
    case False
    have "\<forall>a \<in> set (map fst (Counter ws)). first_index (ws @ [w]) a < first_index (ws @ [w]) w"
      unfolding Counter_keys_set using False by (simp add: first_index_snoc first_index_less)
    moreover have "map fst (Counter (ws @ [w])) = map fst (Counter ws) @ [w]"
      using False Counter_keys_set[of ws] by (simp only: Counter_snoc keys_tally if_False)
    ultimately show ?thesis using keep by (simp only: sorted_wrt_append) simp
  qed
qed

text \<open>A stable sort by descending count ranks the words.\<close>

lemma sorted_wrt_filter_rel:
  "sorted_wrt Q (filter P xs) \<Longrightarrow> sorted_wrt (\<lambda>a b. P a \<and> P b \<longrightarrow> Q a b) xs"
  by (induction xs) (auto split: if_splits)

lemma stable_sort_order:
  fixes f :: "'a \<Rightarrow> int"
  assumes "sorted_wrt Q xs"
  shows "sorted_wrt (\<lambda>a b. f a < f b \<or> (f a = f b \<and> Q a b)) (sort_key f xs)"
proof -
  let ?S = "sort_key f xs"
  have le: "sorted_wrt (\<lambda>a b. f a \<le> f b) ?S"
    using sorted_sort_key[of f xs] by (simp add: sorted_map)
  have eq: "sorted_wrt (\<lambda>a b. f a = k \<and> f b = k \<longrightarrow> Q a b) ?S" for k
  proof -
    have "sorted_wrt Q (filter (\<lambda>y. f y = k) xs)" using assms by (rule sorted_wrt_filter)
    then have "sorted_wrt Q (filter (\<lambda>y. f y = k) ?S)" by (simp add: sort_key_stable)
    then show ?thesis by (rule sorted_wrt_filter_rel)
  qed
  show ?thesis
    unfolding sorted_wrt_iff_nth_less
  proof (intro allI impI)
    fix i j
    assume ij: "i < j" "j < length ?S"
    have "f (?S ! i) \<le> f (?S ! j)" using le ij by (simp add: sorted_wrt_iff_nth_less)
    moreover have "f (?S ! i) = f (?S ! j) \<longrightarrow> Q (?S ! i) (?S ! j)"
      using eq[of "f (?S ! j)"] ij by (simp add: sorted_wrt_iff_nth_less)
    ultimately show "f (?S ! i) < f (?S ! j) \<or> (f (?S ! i) = f (?S ! j) \<and> Q (?S ! i) (?S ! j))"
      by auto
  qed
qed

lemma ranked_keys:
  "sorted_wrt (ranks_before ws) (map fst (sort_key (\<lambda>(w, c). - int c) (Counter ws)))"
proof -
  let ?f = "\<lambda>(w, c). - int c :: int"
  let ?Q = "\<lambda>a b. first_index ws (fst a) < first_index ws (fst b)"
  let ?S = "sort_key ?f (Counter ws)"
  have "sorted_wrt ?Q (Counter ws)"
    using Counter_keys_order[of ws] by (simp add: sorted_wrt_map)
  then have st: "sorted_wrt (\<lambda>a b. ?f a < ?f b \<or> (?f a = ?f b \<and> ?Q a b)) ?S"
    by (rule stable_sort_order)
  have "sorted_wrt (\<lambda>a b. ranks_before ws (fst a) (fst b)) ?S"
  proof (rule sorted_wrt_mono_rel[OF _ st])
    fix a b
    assume a: "a \<in> set ?S" and b: "b \<in> set ?S"
      and r: "?f a < ?f b \<or> (?f a = ?f b \<and> ?Q a b)"
    obtain wa ca wb cb where ab: "a = (wa, ca)" "b = (wb, cb)" by (cases a, cases b)
    have "ca = count_list ws wa" "cb = count_list ws wb"
      using a b ab Counter_item[of _ _ ws] by simp_all
    with r ab show "ranks_before ws (fst a) (fst b)"
      by (auto simp: ranks_before_def)
  qed
  then show ?thesis by (simp add: sorted_wrt_map)
qed

lemma ranked_keys_set:
  fixes f :: "'a \<times> nat \<Rightarrow> int"
  shows "set (map fst (sort_key f (Counter ws))) = set ws"
  using Counter_keys_set[of ws] by simp

lemma distinct_map_insort_key:
  fixes f :: "'a \<Rightarrow> int"
  shows "distinct (map g (insort_key f x xs)) = (g x \<notin> g ` set xs \<and> distinct (map g xs))"
  by (induction xs) (auto simp: set_insort_key)

lemma distinct_map_sort_key:
  fixes f :: "'a \<Rightarrow> int"
  shows "distinct (map g (sort_key f xs)) = distinct (map g xs)"
  by (induction xs) (simp_all add: distinct_map_insort_key)

lemma ranked_keys_distinct:
  fixes f :: "'a \<times> nat \<Rightarrow> int"
  shows "distinct (map fst (sort_key f (Counter ws)))"
  using Counter_keys_distinct[of ws] by (simp only: distinct_map_sort_key)

text \<open>
  C5. \<open>extract_keywords\<close> returns the first \<open>k\<close> words of the ranking of the kept tokens: the
  tokens are the maximal runs of word characters of the lower-cased text (the text that
  \<open>str.lower\<close> returns), without the stop words and the tokens of at most two characters; the
  ranking lists each kept token once, a more frequent token before a less frequent one, and
  of two equally frequent tokens the one met first. This holds for texts over any
  characters and for any tables. Over the code points U+0000 to U+00FF, where lower-casing
  maps the capital letters to the small ones, and with a stop-word list that holds \<open>the\<close> and
  none of \<open>cat\<close>, \<open>sat\<close>, \<open>mat\<close>, \<open>ran\<close>, the two keywords of \<open>the cat sat on the mat the cat ran\<close>,
  and of the same sentence with capital letters in it, are \<open>cat\<close> and \<open>sat\<close>. Beyond U+00FF, the
  two keywords of U+0130\<open>stanbul, \<close>U+212A\<open>elvin kelvin the\<close> are \<open>kelvin\<close> and \<open>stanbul\<close>:
  lower-casing turns the Kelvin sign into k, and U+0130 into an i and a combining dot, which
  is not a word character and ends the token \<open>i\<close>.
\<close>

theorem extract_keywords_ranking:
  "(\<exists>ranked. extract_keywords U sw t k = take (nat k) ranked
       \<and> distinct ranked
       \<and> set ranked = set (filter (\<lambda>w. w \<notin> set sw \<and> 2 < length w) (word_runs U (u_lower U t)))
       \<and> sorted_wrt (ranks_before (filter (\<lambda>w. w \<notin> set sw \<and> 2 < length w) (word_runs U (u_lower U t)))) ranked)
   \<and> (''the'' \<in> set sl \<and> ''cat'' \<notin> set sl \<and> ''sat'' \<notin> set sl \<and> ''mat'' \<notin> set sl \<and> ''ran'' \<notin> set sl
        \<longrightarrow> extract_keywords latin1 sl ''the cat sat on the mat the cat ran'' 2 = [''cat'', ''sat'']
          \<and> extract_keywords latin1 sl ''The CAT sat on the Mat THE Cat RAN'' 2 = [''cat'', ''sat''])
   \<and> u_lower latin1 ''ABCDEFGHIJKLMNOPQRSTUVWXYZ, The Cat'' = ''abcdefghijklmnopqrstuvwxyz, the cat''
   \<and> extract_keywords extended [lit extended ''the'']
         (U0130 # lit extended ''stanbul, '' @ U212A # lit extended ''elvin kelvin the'') 2
       = [lit extended ''kelvin'', lit extended ''stanbul'']"
proof -
  let ?kept = "filter (\<lambda>w. w \<notin> set sw \<and> 2 < length w) (word_runs U (u_lower U t))"
  let ?ranked = "map fst (sort_key (\<lambda>(w, c). - int c) (Counter ?kept))"
  have "extract_keywords U sw t k = take (nat k) ?ranked"
    by (simp add: extract_keywords_def words_are_runs most_common_def take_map)
  then have 1: "\<exists>ranked. extract_keywords U sw t k = take (nat k) ranked
       \<and> distinct ranked \<and> set ranked = set ?kept \<and> sorted_wrt (ranks_before ?kept) ranked"
    using ranked_keys[of ?kept] ranked_keys_set[of _ ?kept] ranked_keys_distinct[of _ ?kept]
    by blast
  have words: "word_runs latin1 (u_lower latin1 ''the cat sat on the mat the cat ran'')
      = [''the'', ''cat'', ''sat'', ''on'', ''the'', ''mat'', ''the'', ''cat'', ''ran'']"
    "word_runs latin1 (u_lower latin1 ''The CAT sat on the Mat THE Cat RAN'')
      = [''the'', ''cat'', ''sat'', ''on'', ''the'', ''mat'', ''the'', ''cat'', ''ran'']"
    by code_simp+
  have 2: "extract_keywords latin1 sl ''the cat sat on the mat the cat ran'' 2 = [''cat'', ''sat'']
      \<and> extract_keywords latin1 sl ''The CAT sat on the Mat THE Cat RAN'' 2 = [''cat'', ''sat'']"
    if "''the'' \<in> set sl \<and> ''cat'' \<notin> set sl \<and> ''sat'' \<notin> set sl \<and> ''mat'' \<notin> set sl \<and> ''ran'' \<notin> set sl"
    using that
    by (simp add: extract_keywords_def words_are_runs words most_common_def Counter_def)
  have 3: "u_lower latin1 ''ABCDEFGHIJKLMNOPQRSTUVWXYZ, The Cat'' = ''abcdefghijklmnopqrstuvwxyz, the cat''"
    by code_simp
  have 4: "extract_keywords extended [lit extended ''the'']
         (U0130 # lit extended ''stanbul, '' @ U212A # lit extended ''elvin kelvin the'') 2
       = [lit extended ''kelvin'', lit extended ''stanbul'']"
    by code_simp
  from 1 2 3 4 show ?thesis by blast
qed

theorem extract_keywords_ranking_witness:
  "extract_keywords latin1 [''the'', ''on''] ''the cat sat on the mat the cat ran'' 2 = [''cat'', ''sat'']
   \<and> extract_keywords latin1 [''the'', ''on''] ''The CAT sat on the Mat THE Cat RAN'' 2 = [''cat'', ''sat'']"
  using extract_keywords_ranking[of latin1 "[]" "[]" 0 "[''the'', ''on'']"]
  by simp

section \<open>Chapter detection on bare headings\<close>

text \<open>
  C8, as stated, fails: a text can contain \<open>CHAPTER 2\<close> with no title and still get another
  title for chapter 2, from a Section heading with the same number, which is stored last,
  or from a later bare heading that spells the number otherwise.
\<close>

theorem bare_chapter_title_overwritten:
  "extract_chapters latin1 ''Section 2: Basics\<newline>CHAPTER 2'' = Inr [(2, ''Basics'')]
   \<and> extract_chapters latin1 ''CHAPTER 2.\<newline>CHAPTER 02.'' = Inr [(2, ''Chapter 02'')]"
  by code_simp

text \<open>What a match of a greedy repetition, of a literal and of the bare pattern consumes.\<close>

lemma greedy_plus_result:
  "(p', s', g') \<in> set (greedy_plus P (p, s, g)) \<Longrightarrow>
   \<exists>m. s = m @ s' \<and> m \<noteq> [] \<and> (\<forall>c \<in> set m. P c) \<and> g' = g"
proof (induction s arbitrary: p)
  case Nil
  then show ?case by simp
next
  case (Cons c cs)
  show ?case
  proof (cases "P c")
    case False
    with Cons.prems show ?thesis by simp
  next
    case True
    with Cons.prems consider "(p', s', g') \<in> set (greedy_plus P (Some c, cs, g))" | "s' = cs \<and> g' = g"
      by auto
    then show ?thesis
    proof cases
      case 1
      then obtain m where "cs = m @ s'" "\<forall>c \<in> set m. P c" "g' = g" using Cons.IH by blast
      with True have "c # cs = (c # m) @ s' \<and> c # m \<noteq> [] \<and> (\<forall>x \<in> set (c # m). P x) \<and> g' = g" by simp
      then show ?thesis by blast
    next
      case 2
      with True have "c # cs = [c] @ s' \<and> [c] \<noteq> [] \<and> (\<forall>x \<in> set [c]. P x) \<and> g' = g" by simp
      then show ?thesis by blast
    qed
  qed
qed

lemma greedy_plus_none: "\<not> (case s of [] \<Rightarrow> False | c # _ \<Rightarrow> P c) \<Longrightarrow> greedy_plus P (p, s, g) = []"
  by (cases s) auto

lemma lits_result:
  "(p', s', g') \<in> set (ms U fl (lits h) (p, s, g)) \<Longrightarrow> ignorecase fl \<Longrightarrow>
   \<exists>m. s = m @ s' \<and> list_all2 (u_ci U) h m \<and> g' = g"
proof (induction h arbitrary: p s)
  case Nil
  then show ?case by simp
next
  case (Cons c cs)
  show ?case
  proof (cases s)
    case Nil
    with Cons.prems show ?thesis by simp
  next
    case s: (Cons x xs)
    with Cons.prems have x: "u_ci U c x" and r: "(p', s', g') \<in> set (ms U fl (lits cs) (Some x, xs, g))"
      by (auto split: if_splits)
    from Cons.IH[OF r Cons.prems(2)] obtain m where "xs = m @ s'" "list_all2 (u_ci U) cs m" "g' = g"
      by blast
    with x s have "s = (x # m) @ s' \<and> list_all2 (u_ci U) (c # cs) (x # m) \<and> g' = g" by simp
    then show ?thesis by blast
  qed
qed

lemma ngroups_lits: "ngroups (lits h) = 0"
  by (induction h) auto

lemma item_bare: "item (bare U kw) whole g = MStr (group g 1)"
  by (simp add: item_def bare_def ngroups_lits)

lemma ms_Seq_iff:
  "x \<in> set (ms U fl (Seq a b) st) \<longleftrightarrow> (\<exists>st1 \<in> set (ms U fl a st). x \<in> set (ms U fl b st1))"
  by simp

lemma ms_Group_iff:
  "(p', s', g') \<in> set (ms U fl (Group n r) (p, s, g)) \<longleftrightarrow>
   (\<exists>g0. (p', s', g0) \<in> set (ms U fl r (p, s, g)) \<and> g' = AList.update n (take (length s - length s') s) g0)"
  by (auto simp: image_iff) force

lemma ms_Plus_result:
  "(p', s', g') \<in> set (ms U fl (Plus a) (p, s, g)) \<Longrightarrow>
   \<exists>m. s = m @ s' \<and> m \<noteq> [] \<and> (\<forall>c \<in> set m. atom_ok U fl a c) \<and> g' = g"
  using greedy_plus_result[of p' s' g' "atom_ok U fl a" p s g] by simp

lemma list_all2_right:
  "list_all2 R xs ys \<Longrightarrow> y \<in> set ys \<Longrightarrow> \<exists>x \<in> set xs. R x y"
  by (induction rule: list_all2_induct) auto

text \<open>A match of the bare pattern: the keyword, white space, digits; no later character is a C.\<close>

lemma bare_result:
  assumes hc: "heading_chars U"
    and "(p', s', g') \<in> set (ms U IGNORECASE (bare U ''CHAPTER'') (p, s, g))"
  shows "\<exists>m. s = m @ s' \<and> m \<noteq> [] \<and> (\<forall>c \<in> set (tl m). c \<noteq> u_chr U CHR ''C'')"
proof -
  have ic: "ignorecase IGNORECASE" by (simp add: IGNORECASE_def)
  from assms(2) obtain st1 where
    1: "st1 \<in> set (ms U IGNORECASE (lits (lit U ''CHAPTER'')) (p, s, g))" and
    r1: "(p', s', g') \<in> set (ms U IGNORECASE (Seq (Plus (In Space)) (Group 1 (Plus (In Digit)))) st1)"
    unfolding bare_def ms_Seq_iff by blast
  obtain p1 s1 g1 where st1: "st1 = (p1, s1, g1)" by (cases st1)
  from r1 obtain st2 where
    2: "st2 \<in> set (ms U IGNORECASE (Plus (In Space)) (p1, s1, g1))" and
    r2: "(p', s', g') \<in> set (ms U IGNORECASE (Group 1 (Plus (In Digit))) st2)"
    unfolding ms_Seq_iff st1 by blast
  obtain p2 s2 g2 where st2: "st2 = (p2, s2, g2)" by (cases st2)
  from r2 obtain g0 where 3: "(p', s', g0) \<in> set (ms U IGNORECASE (Plus (In Digit)) (p2, s2, g2))"
    unfolding st2 ms_Group_iff by blast
  from lits_result[OF 1[unfolded st1] ic] obtain k where
    k: "s = k @ s1" "list_all2 (u_ci U) (lit U ''CHAPTER'') k"
    by blast
  from ms_Plus_result[OF 2[unfolded st2]] obtain w where w: "s1 = w @ s2" "\<forall>c \<in> set w. u_space U c"
    by auto
  from ms_Plus_result[OF 3] obtain d where d: "s2 = d @ s'" "\<forall>c \<in> set d. u_decimal U c"
    by auto
  from k(2) obtain k0 kt where kk: "k = k0 # kt" "list_all2 (u_ci U) (lit U ''HAPTER'') kt"
    by (cases k) (auto simp: lit_def)
  have nc_k: "\<forall>c \<in> set kt. c \<noteq> u_chr U CHR ''C''"
  proof
    fix c assume "c \<in> set kt"
    then obtain x where "x \<in> set (lit U ''HAPTER'')" "u_ci U x c"
      using list_all2_right[OF kk(2)] by blast
    then obtain y where "y \<in> set ''HAPTER''" "u_ci U (u_chr U y) c"
      unfolding lit_def by auto
    moreover have "\<forall>y \<in> set ''HAPTER''. \<not> u_ci U (u_chr U y) (u_chr U CHR ''C'')"
      using hc unfolding heading_chars_def by blast
    ultimately show "c \<noteq> u_chr U CHR ''C''" by blast
  qed
  have "\<not> u_space U (u_chr U CHR ''C'')" "\<not> u_decimal U (u_chr U CHR ''C'')"
    using hc unfolding heading_chars_def by blast+
  then have nc_w: "\<forall>c \<in> set w. c \<noteq> u_chr U CHR ''C''" and nc_d: "\<forall>c \<in> set d. c \<noteq> u_chr U CHR ''C''"
    using w(2) d(2) by blast+
  have "s = (k0 # kt @ w @ d) @ s'" using k w d kk by simp
  moreover have "\<forall>c \<in> set (tl (k0 # kt @ w @ d)). c \<noteq> u_chr U CHR ''C''"
    using nc_k nc_w nc_d by auto
  ultimately show ?thesis by blast
qed

lemma bare_match_here:
  assumes hc: "heading_chars U" and "\<not> digit_next U post"
  shows "match_at U IGNORECASE (bare U ''CHAPTER'') p (lit U ''CHAPTER 2'' @ post)
     = Some (Some (u_chr U CHR ''2''), post, [(1, lit U ''2'')])"
proof -
  have none: "greedy_plus (u_decimal U) (Some (u_chr U CHR ''2''), post, g) = []" for g
    using assms(2) by (intro greedy_plus_none) (simp add: digit_next_def)
  have "\<forall>x \<in> set ''CHAPTER''. u_ci U (u_chr U x) (u_chr U x)"
    using hc unfolding heading_chars_def by blast
  then have ci: "u_ci U (u_chr U CHR ''C'') (u_chr U CHR ''C'')" "u_ci U (u_chr U CHR ''H'') (u_chr U CHR ''H'')"
    "u_ci U (u_chr U CHR ''A'') (u_chr U CHR ''A'')" "u_ci U (u_chr U CHR ''P'') (u_chr U CHR ''P'')"
    "u_ci U (u_chr U CHR ''T'') (u_chr U CHR ''T'')" "u_ci U (u_chr U CHR ''E'') (u_chr U CHR ''E'')"
    "u_ci U (u_chr U CHR ''R'') (u_chr U CHR ''R'')"
    by simp_all
  have sp: "u_space U (u_chr U CHR '' '')" "\<not> u_space U (u_chr U CHR ''2'')" "u_decimal U (u_chr U CHR ''2'')"
    using hc unfolding heading_chars_def by blast+
  have cls: "atom_ok U IGNORECASE (In Space) = u_space U" "atom_ok U IGNORECASE (In Digit) = u_decimal U"
    by (rule ext, simp)+
  show ?thesis
    by (simp add: match_at_def bare_def lit_def IGNORECASE_def cls[unfolded IGNORECASE_def] ci sp none)
qed

lemma match_at_in_ms: "match_at U fl r p s = Some st \<Longrightarrow> st \<in> set (ms U fl r (p, s, []))"
  by (auto simp: match_at_def split: list.splits)

lemma findall_bare_finds:
  assumes hc: "heading_chars U" and nd: "\<not> digit_next U post"
  shows "MStr (lit U ''2'') \<in> set (findall_from U IGNORECASE (bare U ''CHAPTER'') p (pre @ lit U ''CHAPTER 2'' @ post))"
proof (induction "length pre" arbitrary: p pre rule: less_induct)
  case less
  let ?r = "bare U ''CHAPTER''"
  let ?s = "pre @ lit U ''CHAPTER 2'' @ post"
  show ?case
  proof (cases pre)
    case Nil
    then show ?thesis
      using bare_match_here[OF hc nd, of p]
      by (subst findall_from.simps) (simp add: item_bare group_def)
  next
    case (Cons x pre')
    have step: "MStr (lit U ''2'') \<in> set (findall_from U IGNORECASE ?r (Some x) (pre' @ lit U ''CHAPTER 2'' @ post))"
      using less[of pre' "Some x"] Cons by simp
    show ?thesis
    proof (cases "match_at U IGNORECASE ?r p ?s")
      case None
      then show ?thesis using step Cons by (subst findall_from.simps) simp
    next
      case (Some st)
      obtain p' s' g' where st: "st = (p', s', g')" by (cases st)
      from match_at_in_ms[OF Some] st obtain m where
        m: "?s = m @ s'" "m \<noteq> []" "\<forall>c \<in> set (tl m). c \<noteq> u_chr U CHR ''C''"
        using bare_result[OF hc] by blast
      have le: "length m \<le> length pre"
      proof (rule ccontr)
        assume "\<not> length m \<le> length pre"
        then have lt: "length pre < length m" by simp
        have "m ! length pre = ?s ! length pre" using m(1) lt by (simp add: nth_append)
        also have "\<dots> = u_chr U CHR ''C''" by (simp add: nth_append lit_def)
        finally have c: "m ! length pre = u_chr U CHR ''C''" .
        have "0 < length pre" using Cons by simp
        then have "m ! length pre \<in> set (tl m)"
          using lt by (metis (no_types, lifting) Suc_pred' length_tl less_diff_conv nth_mem nth_tl Suc_eq_plus1)
        with m(3) c show False by auto
      qed
      have s': "s' = drop (length m) pre @ lit U ''CHAPTER 2'' @ post"
      proof -
        have "s' = drop (length m) ?s" using m(1) by (metis append_eq_conv_conj)
        then show ?thesis using le by simp
      qed
      have shorter: "length (drop (length m) pre) < length pre" using m(2) Cons by simp
      have "MStr (lit U ''2'') \<in> set (findall_from U IGNORECASE ?r p' s')"
        unfolding s' by (rule less[OF shorter])
      moreover have "length s' < length ?s"
        using m(1,2) by (metis length_append length_greater_0_conv less_add_same_cancel2)
      ultimately show ?thesis
        using Some st by (subst findall_from.simps) simp
    qed
  qed
qed

text \<open>
  The loop returns when \<open>int\<close> converts every numeral; the title it leaves for a number is
  the one of the last item with that number.
\<close>

lemma store_match_short: "(\<exists>d'. store_match U m d = Inr d') \<longleftrightarrow> short_numeral m"
  by (induction U m d rule: store_match.induct) (auto simp: short_numeral_def py_int_def)

lemma store_match_map:
  "store_match U m d = Inr d' \<Longrightarrow>
   map_of d' k = (if match_number U m = Some k then Some (match_title U m) else map_of d k)"
  by (induction U m d rule: store_match.induct)
    (auto simp: update_conv' match_number_def py_int_def split: if_splits)

lemma fold_store_short:
  "(\<exists>d'. fold_err (store_match U) items d = Inr d') \<longleftrightarrow> (\<forall>m \<in> set items. short_numeral m)"
proof (induction items arbitrary: d)
  case Nil
  then show ?case by simp
next
  case (Cons m items)
  show ?case
  proof (cases "store_match U m d")
    case (Inl e)
    then have "\<not> short_numeral m" using store_match_short[of U m d] by simp
    with Inl show ?thesis by simp
  next
    case (Inr d1)
    then have "short_numeral m" using store_match_short[of U m d] by blast
    with Inr Cons.IH[of d1] show ?thesis by simp
  qed
qed

lemma fold_store_other:
  "fold_err (store_match U) items d = Inr d' \<Longrightarrow> \<forall>m \<in> set items. match_number U m \<noteq> Some k \<Longrightarrow>
   map_of d' k = map_of d k"
proof (induction items arbitrary: d)
  case Nil
  then show ?case by simp
next
  case (Cons m items)
  from Cons.prems(1) obtain d1 where d1: "store_match U m d = Inr d1" "fold_err (store_match U) items d1 = Inr d'"
    by (auto split: sum.splits)
  have "map_of d1 k = map_of d k" using store_match_map[OF d1(1), of k] Cons.prems(2) by simp
  moreover have "map_of d' k = map_of d1 k" using Cons.IH[OF d1(2)] Cons.prems(2) by simp
  ultimately show ?case by simp
qed

lemma fold_store_all:
  "fold_err (store_match U) items d = Inr d' \<Longrightarrow>
   \<exists>m \<in> set items. match_number U m = Some k \<Longrightarrow>
   \<forall>m \<in> set items. match_number U m = Some k \<longrightarrow> match_title U m = T \<Longrightarrow>
   map_of d' k = Some T"
proof (induction items arbitrary: d)
  case Nil
  then show ?case by simp
next
  case (Cons m items)
  from Cons.prems(1) obtain d1 where d1: "store_match U m d = Inr d1" "fold_err (store_match U) items d1 = Inr d'"
    by (auto split: sum.splits)
  show ?case
  proof (cases "\<exists>x \<in> set items. match_number U x = Some k")
    case True
    then show ?thesis using Cons.IH[OF d1(2)] Cons.prems(3) by simp
  next
    case False
    then have m: "match_number U m = Some k" "match_title U m = T" using Cons.prems(2,3) by auto
    from False have "map_of d' k = map_of d1 k"
      using fold_store_other[OF d1(2)] by blast
    with m show ?thesis using store_match_map[OF d1(1), of k] by simp
  qed
qed

lemma fold_store_keeps:
  "fold_err (store_match U) items d = Inr d' \<Longrightarrow> map_of d k \<noteq> None \<Longrightarrow> map_of d' k \<noteq> None"
proof (induction items arbitrary: d)
  case Nil
  then show ?case by simp
next
  case (Cons m items)
  from Cons.prems(1) obtain d1 where d1: "store_match U m d = Inr d1" "fold_err (store_match U) items d1 = Inr d'"
    by (auto split: sum.splits)
  have "map_of d1 k \<noteq> None" using store_match_map[OF d1(1), of k] Cons.prems(2) by simp
  then show ?case using Cons.IH[OF d1(2)] by simp
qed

lemma fold_store_writes:
  "fold_err (store_match U) items d = Inr d' \<Longrightarrow> \<exists>m \<in> set items. match_number U m = Some k \<Longrightarrow>
   map_of d' k \<noteq> None"
proof (induction items arbitrary: d)
  case Nil
  then show ?case by simp
next
  case (Cons m items)
  from Cons.prems(1) obtain d1 where d1: "store_match U m d = Inr d1" "fold_err (store_match U) items d1 = Inr d'"
    by (auto split: sum.splits)
  show ?case
  proof (cases "match_number U m = Some k")
    case True
    then have "map_of d1 k \<noteq> None" using store_match_map[OF d1(1), of k] by simp
    then show ?thesis using fold_store_keeps[OF d1(2)] by simp
  next
    case False
    with Cons.prems(2) have "\<exists>x \<in> set items. match_number U x = Some k" by auto
    then show ?thesis using Cons.IH[OF d1(2)] by simp
  qed
qed

lemma extract_chapters_steps:
  "extract_chapters U t = Inr chs \<longleftrightarrow>
   (\<exists>d1 d2 d3. apply_pattern U t (titled U ''Chapter'') [] = Inr d1
      \<and> apply_pattern U t (titled U ''CHAPTER'') d1 = Inr d2
      \<and> apply_pattern U t (bare U ''CHAPTER'') d2 = Inr d3
      \<and> apply_pattern U t (titled U ''Section'') d3 = Inr chs)"
  by (auto simp: extract_chapters_def CHAPTER_PATTERNS_def split: sum.splits)

lemma extract_chapters_returns:
  "(\<exists>chs. extract_chapters U t = Inr chs) \<longleftrightarrow> numerals_short U t"
proof
  assume "\<exists>chs. extract_chapters U t = Inr chs"
  then obtain chs d1 d2 d3 where
    "apply_pattern U t (titled U ''Chapter'') [] = Inr d1"
    "apply_pattern U t (titled U ''CHAPTER'') d1 = Inr d2"
    "apply_pattern U t (bare U ''CHAPTER'') d2 = Inr d3"
    "apply_pattern U t (titled U ''Section'') d3 = Inr chs"
    unfolding extract_chapters_steps by blast
  then have "\<forall>m \<in> set (findall U IGNORECASE (titled U ''Chapter'') t). short_numeral m"
    "\<forall>m \<in> set (findall U IGNORECASE (titled U ''CHAPTER'') t). short_numeral m"
    "\<forall>m \<in> set (findall U IGNORECASE (bare U ''CHAPTER'') t). short_numeral m"
    "\<forall>m \<in> set (findall U IGNORECASE (titled U ''Section'') t). short_numeral m"
    unfolding apply_pattern_def using fold_store_short by blast+
  then show "numerals_short U t" by (simp add: numerals_short_def CHAPTER_PATTERNS_def)
next
  assume "numerals_short U t"
  then have sh: "\<forall>m \<in> set (findall U IGNORECASE (titled U ''Chapter'') t). short_numeral m"
    "\<forall>m \<in> set (findall U IGNORECASE (titled U ''CHAPTER'') t). short_numeral m"
    "\<forall>m \<in> set (findall U IGNORECASE (bare U ''CHAPTER'') t). short_numeral m"
    "\<forall>m \<in> set (findall U IGNORECASE (titled U ''Section'') t). short_numeral m"
    by (simp_all add: numerals_short_def CHAPTER_PATTERNS_def)
  obtain d1 where d1: "apply_pattern U t (titled U ''Chapter'') [] = Inr d1"
    unfolding apply_pattern_def using sh(1) fold_store_short by blast
  obtain d2 where d2: "apply_pattern U t (titled U ''CHAPTER'') d1 = Inr d2"
    unfolding apply_pattern_def using sh(2) fold_store_short by blast
  obtain d3 where d3: "apply_pattern U t (bare U ''CHAPTER'') d2 = Inr d3"
    unfolding apply_pattern_def using sh(3) fold_store_short by blast
  obtain chs where "apply_pattern U t (titled U ''Section'') d3 = Inr chs"
    unfolding apply_pattern_def using sh(4) fold_store_short by blast
  with d1 d2 d3 show "\<exists>chs. extract_chapters U t = Inr chs"
    unfolding extract_chapters_steps by blast
qed

lemma two:
  assumes "heading_chars U"
  shows "match_number U (MStr (lit U ''2'')) = Some 2" "match_title U (MStr (lit U ''2'')) = lit U ''Chapter 2''"
proof -
  have "u_digit U (u_chr U CHR ''2'') = 2" using assms unfolding heading_chars_def by blast
  then show "match_number U (MStr (lit U ''2'')) = Some 2"
    by (simp add: match_number_def digits_value_def lit_def)
  show "match_title U (MStr (lit U ''2'')) = lit U ''Chapter 2''" by (simp add: lit_def)
qed

text \<open>
  C8, amended. The detector returns a map exactly when \<open>int\<close> converts every numeral that the
  patterns capture (none has more than 4300 digits); otherwise it raises. When it returns
  on a text that contains \<open>CHAPTER 2\<close>, not followed by another digit, the map has an entry
  for chapter 2; the entry is the default title \<open>Chapter 2\<close> when no Section heading has a
  match with the number 2 and every match of the bare pattern with the number 2 spells it
  \<open>2\<close>. This holds for texts over any characters and for any tables that treat the
  characters of \<open>CHAPTER 2\<close> as the interpreter does.
\<close>

theorem bare_chapter_default_title:
  assumes "heading_chars U" and "t = pre @ lit U ''CHAPTER 2'' @ post" and "\<not> digit_next U post"
  shows "((\<exists>found. extract_chapters U t = Inr found) \<longleftrightarrow> numerals_short U t)
     \<and> (extract_chapters U t = Inr chs \<longrightarrow>
          (\<exists>title. map_of chs 2 = Some title)
          \<and> ((\<forall>m \<in> set (findall U IGNORECASE (titled U ''Section'') t). match_number U m \<noteq> Some 2)
              \<and> (\<forall>m \<in> set (findall U IGNORECASE (bare U ''CHAPTER'') t).
                    match_number U m = Some 2 \<longrightarrow> m = MStr (lit U ''2''))
              \<longrightarrow> map_of chs 2 = Some (lit U ''Chapter 2'')))"
proof -
  let ?bare = "findall U IGNORECASE (bare U ''CHAPTER'') t"
  have found: "MStr (lit U ''2'') \<in> set ?bare"
    unfolding findall_def assms(2) by (rule findall_bare_finds[OF assms(1) assms(3)])
  then have ex: "\<exists>m \<in> set ?bare. match_number U m = Some 2" using two(1)[OF assms(1)] by blast
  have 2: "(\<exists>title. map_of chs 2 = Some title)
          \<and> ((\<forall>m \<in> set (findall U IGNORECASE (titled U ''Section'') t). match_number U m \<noteq> Some 2)
              \<and> (\<forall>m \<in> set ?bare. match_number U m = Some 2 \<longrightarrow> m = MStr (lit U ''2''))
              \<longrightarrow> map_of chs 2 = Some (lit U ''Chapter 2''))"
    if ret: "extract_chapters U t = Inr chs"
  proof -
    from ret obtain d2 d3 where
      b: "fold_err (store_match U) ?bare d2 = Inr d3" and
      s: "fold_err (store_match U) (findall U IGNORECASE (titled U ''Section'') t) d3 = Inr chs"
      unfolding extract_chapters_steps apply_pattern_def by blast
    have "map_of d3 2 \<noteq> None" by (rule fold_store_writes[OF b ex])
    then have "map_of chs 2 \<noteq> None" by (rule fold_store_keeps[OF s])
    then have entry: "\<exists>title. map_of chs 2 = Some title" by blast
    have title: "map_of chs 2 = Some (lit U ''Chapter 2'')"
      if sec: "\<forall>m \<in> set (findall U IGNORECASE (titled U ''Section'') t). match_number U m \<noteq> Some 2"
        and sp: "\<forall>m \<in> set ?bare. match_number U m = Some 2 \<longrightarrow> m = MStr (lit U ''2'')"
    proof -
      have "\<forall>m \<in> set ?bare. match_number U m = Some 2 \<longrightarrow> match_title U m = lit U ''Chapter 2''"
        using sp two(2)[OF assms(1)] by auto
      then have "map_of d3 2 = Some (lit U ''Chapter 2'')" by (rule fold_store_all[OF b ex])
      moreover have "map_of chs 2 = map_of d3 2" by (rule fold_store_other[OF s sec])
      ultimately show ?thesis by simp
    qed
    from entry title show ?thesis by blast
  qed
  from 2 extract_chapters_returns[of U t] show ?thesis by blast
qed

theorem bare_chapter_default_title_witness:
  "extract_chapters latin1 ''Preface.\<newline>CHAPTER 2\<newline>Body text.'' = Inr [(2, ''Chapter 2'')]
   \<and> map_of [(2 :: int, ''Chapter 2'')] 2 = Some ''Chapter 2''
   \<and> numerals_short latin1 ''Preface.\<newline>CHAPTER 2\<newline>Body text.''
   \<and> extract_chapters extended
         (U0130 # lit extended ''ntro.\<newline>CHAPTER 2\<newline>'' @ U212A # lit extended ''elvin.'')
       = Inr [(2, lit extended ''Chapter 2'')]
   \<and> numerals_short extended
         (U0130 # lit extended ''ntro.\<newline>CHAPTER 2\<newline>'' @ U212A # lit extended ''elvin.'')"
proof -
  let ?u = "U0130 # lit extended ''ntro.\<newline>CHAPTER 2\<newline>'' @ U212A # lit extended ''elvin.''"
  have hc': "heading_chars extended" by code_simp
  have a': "?u = (U0130 # lit extended ''ntro.\<newline>'') @ lit extended ''CHAPTER 2''
      @ (lit extended ''\<newline>'' @ U212A # lit extended ''elvin.'')"
    by (simp add: lit_def)
  have b': "\<not> digit_next extended (lit extended ''\<newline>'' @ U212A # lit extended ''elvin.'')" by code_simp
  have r': "extract_chapters extended ?u = Inr [(2, lit extended ''Chapter 2'')]" by code_simp
  have c': "\<forall>m \<in> set (findall extended IGNORECASE (titled extended ''Section'') ?u).
      match_number extended m \<noteq> Some 2"
    by code_simp
  have d': "\<forall>m \<in> set (findall extended IGNORECASE (bare extended ''CHAPTER'') ?u).
      match_number extended m = Some 2 \<longrightarrow> m = MStr (lit extended ''2'')"
    by code_simp
  let ?t = "''Preface.\<newline>CHAPTER 2\<newline>Body text.''"
  have hc: "heading_chars latin1" by code_simp
  have a: "?t = ''Preface.\<newline>'' @ lit latin1 ''CHAPTER 2'' @ ''\<newline>Body text.''"
    by (simp add: lit_def latin1_def)
  have b: "\<not> digit_next latin1 ''\<newline>Body text.''" by code_simp
  have r: "extract_chapters latin1 ?t = Inr [(2, ''Chapter 2'')]" by code_simp
  have c: "\<forall>m \<in> set (findall latin1 IGNORECASE (titled latin1 ''Section'') ?t). match_number latin1 m \<noteq> Some 2"
    by code_simp
  have d: "\<forall>m \<in> set (findall latin1 IGNORECASE (bare latin1 ''CHAPTER'') ?t).
      match_number latin1 m = Some 2 \<longrightarrow> m = MStr (lit latin1 ''2'')"
    by code_simp
  have l: "lit latin1 ''Chapter 2'' = ''Chapter 2''" by (simp add: lit_def latin1_def)
  have 1: "extract_chapters latin1 ?t = Inr [(2, ''Chapter 2'')]
      \<and> map_of [(2 :: int, ''Chapter 2'')] 2 = Some ''Chapter 2'' \<and> numerals_short latin1 ?t"
    using bare_chapter_default_title[OF hc a b, of "[(2, ''Chapter 2'')]"] r c d l by auto
  have 2: "numerals_short extended ?u"
    using bare_chapter_default_title[OF hc' a' b', of "[(2, lit extended ''Chapter 2'')]"] r' c' d'
    by auto
  from 1 2 r' show ?thesis by simp
qed

end
